theory Spec2Isabelle
  imports Main "HOL-Library.Multiset" "HOL-Library.Char_ord" "HOL-Library.List_Lexorder"
    "HOL-Library.Sublist"
begin

section \<open>Strings\<close>

text \<open>
  JavaScript strings are modelled as HOL strings (lists of 8-bit characters). The model is
  exact on ASCII text: the case mappings and the white-space class below are the ASCII
  parts of \<^verbatim>\<open>toLowerCase\<close>, \<^verbatim>\<open>toUpperCase\<close>, \<^verbatim>\<open>trim\<close> and \<^verbatim>\<open>\s\<close>. Outside ASCII the
  code also lowers and raises letters with a case, and counts the no-break space
  (U+00A0), the spaces U+2000 to U+200A and a few more characters as white space; an
  8-bit character cannot hold them, and a text with such characters is outside the model.
  The inputs at which a theorem below evaluates the code are ASCII.
\<close>

definition dq :: char where
  "dq = CHR 0x22"

definition bt :: char where
  "bt = CHR 0x60"

definition nl :: char where
  "nl = CHR 0x0A"

definition is_space :: "char \<Rightarrow> bool" where
  "is_space c = (c \<in> set [CHR 0x09, CHR 0x0A, CHR 0x0B, CHR 0x0C, CHR 0x0D, CHR '' ''])"

definition is_digit :: "char \<Rightarrow> bool" where
  "is_digit c = (c \<in> set ''0123456789'')"

definition is_lower_az :: "char \<Rightarrow> bool" where
  "is_lower_az c = (c \<in> set ''abcdefghijklmnopqrstuvwxyz'')"

definition is_upper_az :: "char \<Rightarrow> bool" where
  "is_upper_az c = (c \<in> set ''ABCDEFGHIJKLMNOPQRSTUVWXYZ'')"

definition is_word :: "char \<Rightarrow> bool" where
  "is_word c = (is_lower_az c \<or> is_upper_az c \<or> is_digit c \<or> c = CHR ''_'')"

definition is_hex_lower :: "char \<Rightarrow> bool" where
  "is_hex_lower c = (c \<in> set ''abcdef0123456789'')"

definition toLowerChar :: "char \<Rightarrow> char" where
  "toLowerChar c =
     (case map_of (zip ''ABCDEFGHIJKLMNOPQRSTUVWXYZ'' ''abcdefghijklmnopqrstuvwxyz'') c of
        Some d \<Rightarrow> d | None \<Rightarrow> c)"

definition toUpperChar :: "char \<Rightarrow> char" where
  "toUpperChar c =
     (case map_of (zip ''abcdefghijklmnopqrstuvwxyz'' ''ABCDEFGHIJKLMNOPQRSTUVWXYZ'') c of
        Some d \<Rightarrow> d | None \<Rightarrow> c)"

definition toLowerCase :: "string \<Rightarrow> string" where
  "toLowerCase s = map toLowerChar s"

definition toUpperCase :: "string \<Rightarrow> string" where
  "toUpperCase s = map toUpperChar s"

definition trim :: "string \<Rightarrow> string" where
  "trim s = rev (dropWhile is_space (rev (dropWhile is_space s)))"

definition startsWith :: "string \<Rightarrow> string \<Rightarrow> bool" where
  "startsWith s p = (take (length p) s = p)"

fun str_includes :: "string \<Rightarrow> string \<Rightarrow> bool" where
  "str_includes [] p = (p = [])"
| "str_includes (c # cs) p = (startsWith (c # cs) p \<or> str_includes cs p)"

text \<open>\<^verbatim>\<open>s.substring(a, b)\<close> for \<open>0 \<le> a \<le> b\<close>, and \<^verbatim>\<open>s.substring(a)\<close>.\<close>

definition substring :: "string \<Rightarrow> nat \<Rightarrow> nat \<Rightarrow> string" where
  "substring s a b = take (b - a) (drop a s)"

definition substring_from :: "string \<Rightarrow> nat \<Rightarrow> string" where
  "substring_from s a = drop a s"

text \<open>
  \<^verbatim>\<open>s.split(sep)\<close> for a non-empty separator: \<open>cur\<close> holds the characters of the
  piece being read, most recent first.
\<close>

function split_acc :: "string \<Rightarrow> string \<Rightarrow> string \<Rightarrow> string list" where
  "split_acc sep cur s =
     (if s = [] then [rev cur]
      else if sep \<noteq> [] \<and> startsWith s sep
        then rev cur # split_acc sep [] (drop (length sep) s)
        else split_acc sep (hd s # cur) (tl s))"
  by pat_completeness auto
termination
  by (relation "measure (\<lambda>(sep, cur, s). length s)") auto

declare split_acc.simps [simp del]

definition split :: "string \<Rightarrow> string \<Rightarrow> string list" where
  "split s sep = split_acc sep [] s"

fun join :: "string list \<Rightarrow> string \<Rightarrow> string" where
  "join [] sep = []"
| "join [x] sep = x"
| "join (x # y # ys) sep = x @ sep @ join (y # ys) sep"

text \<open>\<^verbatim>\<open>xs.slice(-n)\<close>: the last \<open>n\<close> elements.\<close>

definition slice_last :: "nat \<Rightarrow> 'a list \<Rightarrow> 'a list" where
  "slice_last n xs = drop (length xs - n) xs"

section \<open>Regular expressions\<close>

text \<open>
  The fragment of ECMAScript regular expressions the program uses: literals, character
  classes, greedy \<^verbatim>\<open>*\<close> and \<^verbatim>\<open>+\<close> over a class, sequence, alternation and capture
  groups. \<open>rx_match r s\<close> lists, in the backtracking matcher's order of preference, every
  way \<open>r\<close> matches a prefix of \<open>s\<close>: the captures and the rest of the input.
\<close>

datatype rx =
    Lit string
  | Cls "char \<Rightarrow> bool"
  | Star "char \<Rightarrow> bool"
  | Plus "char \<Rightarrow> bool"
  | Seq rx rx
  | Alt rx rx
  | Grp rx

fun star_ends :: "(char \<Rightarrow> bool) \<Rightarrow> string \<Rightarrow> string list" where
  "star_ends p [] = [[]]"
| "star_ends p (c # cs) = (if p c then star_ends p cs else []) @ [c # cs]"

fun rx_match :: "rx \<Rightarrow> string \<Rightarrow> (string list \<times> string) list" where
  "rx_match (Lit l) s = (if startsWith s l then [([], drop (length l) s)] else [])"
| "rx_match (Cls p) s = (case s of [] \<Rightarrow> [] | c # cs \<Rightarrow> if p c then [([], cs)] else [])"
| "rx_match (Star p) s = map (Pair []) (star_ends p s)"
| "rx_match (Plus p) s =
     (case s of [] \<Rightarrow> [] | c # cs \<Rightarrow> if p c then map (Pair []) (star_ends p cs) else [])"
| "rx_match (Seq a b) s =
     concat (map (\<lambda>(ca, ra). map (\<lambda>(cb, rb). (ca @ cb, rb)) (rx_match b ra)) (rx_match a s))"
| "rx_match (Alt a b) s = rx_match a s @ rx_match b s"
| "rx_match (Grp a) s =
     map (\<lambda>(ca, ra). (take (length s - length ra) s # ca, ra)) (rx_match a s)"

text \<open>A match at the start of \<open>s\<close>: the matched text, the captures, the rest.\<close>

definition match_here :: "rx \<Rightarrow> string \<Rightarrow> (string \<times> string list \<times> string) option" where
  "match_here r s =
     (case rx_match r s of
        [] \<Rightarrow> None
      | (caps, rest) # _ \<Rightarrow> Some (take (length s - length rest) s, caps, rest))"

text \<open>
  \<^verbatim>\<open>s.replace(/r/g, f)\<close>: scan left to right; at a match, emit \<open>f\<close> of the matched text and
  captures and continue after it (after an empty match, copy one character first).
\<close>

function replace_all :: "rx \<Rightarrow> (string \<Rightarrow> string list \<Rightarrow> string) \<Rightarrow> string \<Rightarrow> string" where
  "replace_all r f s =
     (case match_here r s of
        None \<Rightarrow> (case s of [] \<Rightarrow> [] | c # cs \<Rightarrow> c # replace_all r f cs)
      | Some (m, caps, rest) \<Rightarrow>
          if length rest < length s then f m caps @ replace_all r f rest
          else f m caps @ (case s of [] \<Rightarrow> [] | c # cs \<Rightarrow> c # replace_all r f cs))"
  by pat_completeness auto
termination
  by (relation "measure (\<lambda>(r, f, s). length s)") auto

declare replace_all.simps [simp del]

text \<open>\<^verbatim>\<open>s.match(/r/g) || []\<close>: the matched texts, left to right.\<close>

function match_all :: "rx \<Rightarrow> string \<Rightarrow> string list" where
  "match_all r s =
     (case match_here r s of
        None \<Rightarrow> (case s of [] \<Rightarrow> [] | c # cs \<Rightarrow> match_all r cs)
      | Some (m, caps, rest) \<Rightarrow>
          if length rest < length s then m # match_all r rest
          else m # (case s of [] \<Rightarrow> [] | c # cs \<Rightarrow> match_all r cs))"
  by pat_completeness auto
termination
  by (relation "measure (\<lambda>(r, s). length s)") auto

declare match_all.simps [simp del]

text \<open>\<^verbatim>\<open>s.match(/r/)\<close> without the global flag: the captures of the leftmost match.\<close>

fun search :: "rx \<Rightarrow> string \<Rightarrow> string list option" where
  "search r [] = (case match_here r [] of None \<Rightarrow> None | Some (m, caps, rest) \<Rightarrow> Some caps)"
| "search r (c # cs) =
     (case match_here r (c # cs) of None \<Rightarrow> search r cs | Some (m, caps, rest) \<Rightarrow> Some caps)"

definition test :: "rx \<Rightarrow> string \<Rightarrow> bool" where
  "test r s = (search r s \<noteq> None)"

section \<open>External functions\<close>

text \<open>
  \<^verbatim>\<open>crypto.createHash('md5').update(s).digest('hex')\<close> belongs to the platform, not to
  the repository: the hash is a parameter \<open>md5\<close> of every function that calls it.
  \<^verbatim>\<open>JSON.stringify\<close> of a string quotes it and escapes the quote, the backslash and
  the control characters.
\<close>

definition hex_digit :: "nat \<Rightarrow> char" where
  "hex_digit n = ''0123456789abcdef'' ! (n mod 16)"

definition json_escape_char :: "char \<Rightarrow> string" where
  "json_escape_char c =
     (if c = dq then [CHR 0x5C, dq]
      else if c = CHR 0x5C then [CHR 0x5C, CHR 0x5C]
      else if c = CHR 0x08 then [CHR 0x5C, CHR ''b'']
      else if c = CHR 0x09 then [CHR 0x5C, CHR ''t'']
      else if c = CHR 0x0A then [CHR 0x5C, CHR ''n'']
      else if c = CHR 0x0C then [CHR 0x5C, CHR ''f'']
      else if c = CHR 0x0D then [CHR 0x5C, CHR ''r'']
      else if (of_char c :: nat) < 32
        then [CHR 0x5C, CHR ''u'', CHR ''0'', CHR ''0'',
              hex_digit (of_char c div 16), hex_digit (of_char c)]
      else [c])"

definition json_string :: "string \<Rightarrow> string" where
  "json_string s = [dq] @ concat (map json_escape_char s) @ [dq]"

text \<open>\<^verbatim>\<open>JSON.stringify\<close> of an object whose values are strings, keys in insertion order.\<close>

definition json_object :: "(string \<times> string) list \<Rightarrow> string" where
  "json_object kvs =
     ''{'' @ join (map (\<lambda>(k, v). json_string k @ '':'' @ json_string v) kvs) '','' @ ''}''"

section \<open>Violation grouping (violationGrouper.ts)\<close>

datatype Impact = Minor | Moderate | Serious | Critical

record DOMContext =
  cssSelector :: string

record ViolationWithContext =
  ruleId :: string
  impact :: "Impact option"
  description :: string
  helpText :: string
  helpUrl :: string
  wcagTags :: "string list"
  html :: string
  dom_context :: DOMContext

record Occurrence =
  occ_url :: string
  occ_selector :: string
  occ_html :: string

record ViolationGroup =
  g_signature :: string
  g_ruleId :: string
  g_impact :: string
  g_description :: string
  g_help :: string
  g_helpUrl :: string
  g_wcagTags :: "string list"
  exampleHtml :: string
  exampleSelector :: string
  occurrences :: "Occurrence list"
  totalOccurrences :: int

fun impact_name :: "Impact \<Rightarrow> string" where
  "impact_name Minor = ''minor''"
| "impact_name Moderate = ''moderate''"
| "impact_name Serious = ''serious''"
| "impact_name Critical = ''critical''"

text \<open>\<^verbatim>\<open>violation.impact || 'unknown'\<close>\<close>

definition impact_or_unknown :: "ViolationWithContext \<Rightarrow> string" where
  "impact_or_unknown v = (case impact v of None \<Rightarrow> ''unknown'' | Some i \<Rightarrow> impact_name i)"

subsection \<open>The regular expressions of createViolationSignature\<close>

definition not_dq :: "char \<Rightarrow> bool" where
  "not_dq c = (c \<noteq> dq)"

definition not_gt :: "char \<Rightarrow> bool" where
  "not_gt c = (c \<noteq> CHR ''>'')"

definition is_az_dash :: "char \<Rightarrow> bool" where
  "is_az_dash c = (is_lower_az c \<or> c = CHR ''-'')"

definition not_space_gt :: "char \<Rightarrow> bool" where
  "not_space_gt c = (\<not> is_space c \<and> c \<noteq> CHR ''>'')"

text \<open>
  \<^verbatim>\<open>"[^"]*"\<close>, the tail of each attribute pattern, and \<^verbatim>\<open>"([^"]*)"\<close>, the same with
  its capture group.
\<close>

definition rx_quoted :: rx where
  "rx_quoted = Seq (Lit [dq]) (Seq (Star not_dq) (Lit [dq]))"

text \<open>\<^verbatim>\<open>/\s+/g\<close>\<close>

definition rx_spaces :: rx where
  "rx_spaces = Plus is_space"

text \<open>\<^verbatim>\<open>/aria-controls="[^"]*"/g\<close>\<close>

definition rx_aria_controls :: rx where
  "rx_aria_controls = Seq (Lit ''aria-controls='') rx_quoted"

text \<open>\<^verbatim>\<open>/\sid="[^"]*"/g\<close>\<close>

definition rx_id_attr :: rx where
  "rx_id_attr = Seq (Cls is_space) (Seq (Lit ''id='') rx_quoted)"

text \<open>\<^verbatim>\<open>/\sdata-[a-z-]+="[^"]*"/g\<close>\<close>

definition rx_data_attr :: rx where
  "rx_data_attr =
     Seq (Cls is_space) (Seq (Lit ''data-'') (Seq (Plus is_az_dash) (Seq (Lit ''='') rx_quoted)))"

text \<open>\<^verbatim>\<open>/\sclass="([^"]*)"/g\<close>\<close>

definition rx_quoted_grp :: rx where
  "rx_quoted_grp = Seq (Lit [dq]) (Seq (Grp (Star not_dq)) (Lit [dq]))"

definition rx_class_attr :: rx where
  "rx_class_attr = Seq (Cls is_space) (Seq (Lit ''class='') rx_quoted_grp)"

text \<open>\<^verbatim>\<open>/\d{3,}|[a-f0-9]{6,}/\<close>\<close>

definition rx_generated :: rx where
  "rx_generated =
     Alt (Seq (Cls is_digit) (Seq (Cls is_digit) (Plus is_digit)))
         (Seq (Cls is_hex_lower) (Seq (Cls is_hex_lower) (Seq (Cls is_hex_lower)
           (Seq (Cls is_hex_lower) (Seq (Cls is_hex_lower) (Plus is_hex_lower))))))"

text \<open>\<^verbatim>\<open>/^<(\w+)([^>]*)>/\<close>, matched at the start of the string only.\<close>

definition rx_open_tag :: rx where
  "rx_open_tag = Seq (Lit ''<'') (Seq (Grp (Plus is_word)) (Seq (Grp (Star not_gt)) (Lit ''>'')))"

text \<open>\<^verbatim>\<open>/(role|aria-[a-z]+|type|name|placeholder)="[^"]*"/g\<close>\<close>

definition rx_semantic :: rx where
  "rx_semantic =
     Seq (Grp (Alt (Lit ''role'') (Alt (Seq (Lit ''aria-'') (Plus is_lower_az))
            (Alt (Lit ''type'') (Alt (Lit ''name'') (Lit ''placeholder''))))))
         (Seq (Lit ''='') rx_quoted)"

text \<open>\<^verbatim>\<open>/:\d+/g\<close> and \<^verbatim>\<open>/#[^\s>]+/g\<close>\<close>

definition rx_positional :: rx where
  "rx_positional = Seq (Lit '':'') (Plus is_digit)"

definition rx_id_selector :: rx where
  "rx_id_selector = Seq (Lit ''#'') (Plus not_space_gt)"

subsection \<open>createViolationSignature\<close>

text \<open>The callback of the class replacement: drop the tokens that look generated.\<close>

definition clean_classes :: "string \<Rightarrow> string list \<Rightarrow> string" where
  "clean_classes m caps =
     (let classes = (case caps of [] \<Rightarrow> [] | c # _ \<Rightarrow> c);
          cleanClasses = join (filter (\<lambda>c. \<not> test rx_generated c) (split classes '' '')) '' ''
      in if cleanClasses \<noteq> [] then '' class='' @ [dq] @ cleanClasses @ [dq] else [])"

definition normalizeHtml :: "string \<Rightarrow> string" where
  "normalizeHtml h =
     (let n0 = toLowerCase (trim (replace_all rx_spaces (\<lambda>m caps. '' '') h));
          n1 = replace_all rx_aria_controls (\<lambda>m caps. ''aria-controls='' @ [dq, dq]) n0;
          n2 = replace_all rx_id_attr (\<lambda>m caps. '' id='' @ [dq, dq]) n1;
          n3 = replace_all rx_data_attr (\<lambda>m caps. []) n2
      in replace_all rx_class_attr clean_classes n3)"

definition selectorPattern :: "string \<Rightarrow> string" where
  "selectorPattern sel =
     join (slice_last 3
       (split (replace_all rx_id_selector (\<lambda>m caps. [])
                (replace_all rx_positional (\<lambda>m caps. []) sel)) '' > '')) '' > ''"

definition createViolationSignature :: "(string \<Rightarrow> string) \<Rightarrow> ViolationWithContext \<Rightarrow> string" where
  "createViolationSignature md5 violation =
     (let normalizedHtml = normalizeHtml (html violation) in
      case match_here rx_open_tag normalizedHtml of
        None \<Rightarrow> md5 (ruleId violation @ '':'' @ substring normalizedHtml 0 100)
      | Some (m, caps, rest) \<Rightarrow>
          (let tagName = caps ! 0;
               attributes = caps ! 1;
               semanticAttrs = match_all rx_semantic attributes
           in md5 (json_object
                [(''ruleId'', ruleId violation),
                 (''tagName'', tagName),
                 (''semanticAttributes'', join (sort semanticAttrs) '' ''),
                 (''selectorPattern'', selectorPattern (cssSelector (dom_context violation))),
                 (''impact'', impact_or_unknown violation)])))"

subsection \<open>groupViolations\<close>

text \<open>
  The \<^verbatim>\<open>Map\<close> of groups is an association list in insertion order (the order a
  JavaScript \<^verbatim>\<open>Map\<close> iterates in); the argument \<^verbatim>\<open>violationsByPage\<close> is the list of
  its entries in iteration order.
\<close>

type_synonym GroupMap = "(string \<times> ViolationGroup) list"

definition new_group :: "string \<Rightarrow> ViolationWithContext \<Rightarrow> ViolationGroup" where
  "new_group signature violation =
     \<lparr> g_signature = signature,
       g_ruleId = ruleId violation,
       g_impact = impact_or_unknown violation,
       g_description = description violation,
       g_help = helpText violation,
       g_helpUrl = helpUrl violation,
       g_wcagTags = wcagTags violation,
       exampleHtml = html violation,
       exampleSelector = cssSelector (dom_context violation),
       occurrences = [],
       totalOccurrences = 0 \<rparr>"

definition push_occurrence :: "string \<Rightarrow> ViolationWithContext \<Rightarrow> ViolationGroup \<Rightarrow> ViolationGroup" where
  "push_occurrence url violation grp =
     grp\<lparr> occurrences := occurrences grp @
               [\<lparr> occ_url = url,
                  occ_selector = cssSelector (dom_context violation),
                  occ_html = html violation \<rparr>],
            totalOccurrences := totalOccurrences grp + 1 \<rparr>"

text \<open>The body of the inner loop: one violation of the page \<open>url\<close>.\<close>

definition add_violation ::
  "(string \<Rightarrow> string) \<Rightarrow> string \<Rightarrow> GroupMap \<Rightarrow> ViolationWithContext \<Rightarrow> GroupMap" where
  "add_violation md5 url groups violation =
     (let signature = createViolationSignature md5 violation;
          groups1 = (if map_of groups signature = None
                     then groups @ [(signature, new_group signature violation)]
                     else groups)
      in map (\<lambda>(k, g). if k = signature then (k, push_occurrence url violation g)
                         else (k, g)) groups1)"

fun page_loop ::
  "(string \<Rightarrow> string) \<Rightarrow> string \<Rightarrow> ViolationWithContext list \<Rightarrow> GroupMap \<Rightarrow> GroupMap" where
  "page_loop md5 url [] groups = groups"
| "page_loop md5 url (violation # rest) groups =
     page_loop md5 url rest (add_violation md5 url groups violation)"

fun pages_loop ::
  "(string \<Rightarrow> string) \<Rightarrow> (string \<times> ViolationWithContext list) list \<Rightarrow> GroupMap \<Rightarrow> GroupMap" where
  "pages_loop md5 [] groups = groups"
| "pages_loop md5 ((url, violations) # rest) groups =
     pages_loop md5 rest (page_loop md5 url violations groups)"

definition impactOrder :: "string \<Rightarrow> int option" where
  "impactOrder i =
     map_of [(''critical'', 0), (''serious'', 1), (''moderate'', 2), (''minor'', 3),
             (''unknown'', 4)] i"

text \<open>
  The comparator of the final sort. An impact outside the table makes the difference
  \<^verbatim>\<open>NaN\<close>, which the comparator returns and \<^verbatim>\<open>sort\<close> reads as 0.
\<close>

definition compare_groups :: "ViolationGroup \<Rightarrow> ViolationGroup \<Rightarrow> int" where
  "compare_groups a b =
     (case (impactOrder (g_impact a), impactOrder (g_impact b)) of
        (Some x, Some y) \<Rightarrow>
          (let impactDiff = x - y
           in if impactDiff \<noteq> 0 then impactDiff
              else totalOccurrences b - totalOccurrences a)
      | _ \<Rightarrow> 0)"

text \<open>
  \<^verbatim>\<open>Array.prototype.sort\<close> is stable; it is modelled by insertion, which keeps the
  elements the comparator calls equal in their order of arrival.
\<close>

fun insert_by :: "('a \<Rightarrow> 'a \<Rightarrow> int) \<Rightarrow> 'a \<Rightarrow> 'a list \<Rightarrow> 'a list" where
  "insert_by cmp x [] = [x]"
| "insert_by cmp x (y # ys) = (if cmp x y \<le> 0 then x # y # ys else y # insert_by cmp x ys)"

definition sort_by :: "('a \<Rightarrow> 'a \<Rightarrow> int) \<Rightarrow> 'a list \<Rightarrow> 'a list" where
  "sort_by cmp xs = foldr (insert_by cmp) xs []"

definition groupViolations ::
  "(string \<Rightarrow> string) \<Rightarrow> (string \<times> ViolationWithContext list) list \<Rightarrow> ViolationGroup list" where
  "groupViolations md5 violationsByPage =
     sort_by compare_groups (map snd (pages_loop md5 violationsByPage []))"

text \<open>Decimal rendering of a number, as template literals do for a non-negative integer.\<close>

function string_of_nat :: "nat \<Rightarrow> string" where
  "string_of_nat n =
     (if n < 10 then [''0123456789'' ! n]
      else string_of_nat (n div 10) @ [''0123456789'' ! (n mod 10)])"
  by pat_completeness auto
termination
  by (relation "measure id") auto

declare string_of_nat.simps [simp del]

definition string_of_int :: "int \<Rightarrow> string" where
  "string_of_int i = (if i < 0 then ''-'' @ string_of_nat (nat (- i)) else string_of_nat (nat i))"

definition getImpactColor :: "string \<Rightarrow> string" where
  "getImpactColor i =
     (case map_of [(''critical'', ''red''), (''serious'', ''orange''), (''moderate'', ''yellow''),
                   (''minor'', ''blue''), (''unknown'', ''gray'')] i of
        Some c \<Rightarrow> if c \<noteq> [] then c else ''gray''
      | None \<Rightarrow> ''gray'')"

text \<open>
  The \<^verbatim>\<open>uniquePages\<close> map of generateGroupSummary: occurrences counted per URL, in the
  order the URLs are first seen.
\<close>

fun count_pages :: "Occurrence list \<Rightarrow> (string \<times> nat) list \<Rightarrow> (string \<times> nat) list" where
  "count_pages [] m = m"
| "count_pages (occurrence # rest) m =
     count_pages rest
       (case map_of m (occ_url occurrence) of
          None \<Rightarrow> m @ [(occ_url occurrence, 1)]
        | Some n \<Rightarrow> map (\<lambda>(u, k). if u = occ_url occurrence then (u, k + 1) else (u, k)) m)"

definition generateGroupSummary :: "ViolationGroup \<Rightarrow> string" where
  "generateGroupSummary grp =
     (let impactBadge = ''!['' @ g_impact grp @ ''](https://img.shields.io/badge/impact-'' @
            g_impact grp @ ''-'' @ getImpactColor (g_impact grp) @ '')'';
          wcagBadges = join (map (\<lambda>tag. ''!['' @ tag @ ''](https://img.shields.io/badge/WCAG-'' @
            tag @ ''-blue)'') (g_wcagTags grp)) '' '';
          uniquePages = count_pages (occurrences grp) []
      in ''# '' @ g_ruleId grp @ [nl, nl] @
         impactBadge @ '' '' @ wcagBadges @ [nl, nl] @
         ''## Description'' @ [nl, nl] @ g_description grp @ [nl, nl] @
         ''## How to Fix'' @ [nl, nl] @ g_help grp @ [nl, nl] @
         [CHR 0xF0, CHR 0x9F, CHR 0x93, CHR 0x9A] @ '' [Learn more]('' @ g_helpUrl grp @ '')'' @
           [nl, nl] @
         ''## Impact'' @ [nl, nl] @
         ''- **Severity**: '' @ toUpperCase (g_impact grp) @ [nl] @
         ''- **Total Occurrences**: '' @ string_of_int (totalOccurrences grp) @ [nl] @
         ''- **Pages Affected**: '' @ string_of_nat (length (occurrences grp)) @ [nl, nl] @
         ''## Example Violation'' @ [nl, nl] @
         ''**Selector**: '' @ [bt] @ exampleSelector grp @ [bt] @ [nl, nl] @
         ''**HTML**:'' @ [nl, bt, bt, bt] @ ''html'' @ [nl] @
           substring (exampleHtml grp) 0 500 @ [nl, bt, bt, bt, nl, nl] @
         ''## Pages Where This Occurs'' @ [nl, nl] @
         concat (map (\<lambda>(url, count). ''- ['' @ url @ '']('' @ url @ '') ('' @
           string_of_nat count @ '' instance'' @ (if count > 1 then ''s'' else []) @ '')'' @ [nl])
           uniquePages) @
         [nl] @ ''## Remediation Steps'' @ [nl, nl] @
         ''1. Search your codebase for: '' @ [bt] @ exampleSelector grp @ [bt, nl] @
         ''2. Look for HTML matching this pattern:'' @ [nl] @
         ''   '' @ [bt, bt, bt] @ ''html'' @ [nl] @ ''   '' @
           substring (exampleHtml grp) 0 100 @ ''...'' @ [nl] @ ''   '' @ [bt, bt, bt, nl] @
         ''3. Apply the fix described in the '' @ [dq] @ ''How to Fix'' @ [dq] @ '' section'' @ [nl] @
         ''4. Test the changes on all affected pages'' @ [nl, nl] @
         ''---'' @ [nl, nl] @
         ''*This issue was automatically generated by the accessibility scanner*'' @ [nl] @
         ''*Signature: '' @ [bt] @ g_signature grp @ [bt] @ ''*'' @ [nl])"

definition generateLabels :: "ViolationGroup \<Rightarrow> string list" where
  "generateLabels grp =
     [''accessibility'', ''a11y:'' @ g_ruleId grp, ''impact:'' @ g_impact grp] @
     filter (\<lambda>tag. startsWith tag ''wcag'') (g_wcagTags grp)"

section \<open>Issue reconciliation (githubIssues.ts)\<close>

text \<open>
  The issue tracker is the external collaborator behind \<^verbatim>\<open>octokit\<close>. It is modelled as the
  list of its issues, newest first (the order in which GitHub lists them), with the number
  the next created issue receives. Every tracker call succeeds; \<open>now\<close> is the clock reading
  \<^verbatim>\<open>new Date().toISOString()\<close>.
\<close>

datatype IssueState = IssueOpen | IssueClosed

record Issue =
  i_number :: nat
  i_title :: string
  i_body :: string
  i_state :: IssueState
  i_labels :: "string list"
  i_comments :: "string list"

record Tracker =
  owner :: string
  repo :: string
  issues :: "Issue list"
  next_number :: nat

datatype Action = Created | Updated | Unchanged

record IssueResult =
  res_signature :: string
  res_action :: Action
  res_issueNumber :: nat
  res_url :: string

definition issue_url :: "Tracker \<Rightarrow> nat \<Rightarrow> string" where
  "issue_url t n =
     ''https://github.com/'' @ owner t @ ''/'' @ repo t @ ''/issues/'' @ string_of_nat n"

text \<open>
  \<^verbatim>\<open>listForRepo({labels: 'accessibility', state: 'open'})\<close>, all pages of the listing.
\<close>

definition getExistingA11yIssues :: "Tracker \<Rightarrow> Issue list" where
  "getExistingA11yIssues t =
     filter (\<lambda>i. i_state i = IssueOpen \<and> ''accessibility'' \<in> set (i_labels i)) (issues t)"

definition signature_token :: "string \<Rightarrow> string" where
  "signature_token sig = ''Signature: '' @ [bt] @ sig @ [bt]"

fun findMatchingIssue :: "ViolationGroup \<Rightarrow> Issue list \<Rightarrow> Issue option" where
  "findMatchingIssue grp [] = None"
| "findMatchingIssue grp (issue # rest) =
     (if str_includes (i_body issue) (signature_token (g_signature grp)) then Some issue
      else if str_includes (i_title issue) (g_ruleId grp) then Some issue
      else findMatchingIssue grp rest)"

text \<open>The title createIssue gives a new issue.\<close>

definition issue_title :: "ViolationGroup \<Rightarrow> string" where
  "issue_title grp = ''[A11y] '' @ g_ruleId grp @ '': '' @ substring (g_description grp) 0 80"

definition createIssue :: "Tracker \<Rightarrow> ViolationGroup \<Rightarrow> Tracker \<times> IssueResult" where
  "createIssue t grp =
     (let title = issue_title grp;
          body = generateGroupSummary grp;
          labels = generateLabels grp;
          number = next_number t;
          issue = \<lparr> i_number = number, i_title = title, i_body = body, i_state = IssueOpen,
                    i_labels = labels, i_comments = [] \<rparr>
      in (t\<lparr> issues := issue # issues t, next_number := number + 1 \<rparr>,
          \<lparr> res_signature = g_signature grp, res_action = Created, res_issueNumber = number,
            res_url = issue_url t number \<rparr>))"

definition modify_issue :: "nat \<Rightarrow> (Issue \<Rightarrow> Issue) \<Rightarrow> Tracker \<Rightarrow> Tracker" where
  "modify_issue n f t = t\<lparr> issues := map (\<lambda>i. if i_number i = n then f i else i) (issues t) \<rparr>"

definition updateIssue :: "string \<Rightarrow> Tracker \<Rightarrow> nat \<Rightarrow> ViolationGroup \<Rightarrow> Tracker \<times> IssueResult" where
  "updateIssue now t issueNumber grp =
     (let body = generateGroupSummary grp;
          labels = generateLabels grp;
          t1 = modify_issue issueNumber (\<lambda>i. i\<lparr> i_body := body, i_labels := labels \<rparr>) t;
          comment = [CHR 0xF0, CHR 0x9F, CHR 0x94, CHR 0x84] @
            '' **Updated**: This issue was updated with the latest scan results.'' @
            [nl, nl] @
            ''- Total occurrences: '' @ string_of_int (totalOccurrences grp) @ [nl] @
            ''- Pages affected: '' @ string_of_nat (length (occurrences grp)) @ [nl, nl] @
            ''*Updated at: '' @ now @ ''*'';
          t2 = modify_issue issueNumber (\<lambda>i. i\<lparr> i_comments := i_comments i @ [comment] \<rparr>) t1
      in (t2, \<lparr> res_signature = g_signature grp, res_action = Updated,
                res_issueNumber = issueNumber, res_url = issue_url t issueNumber \<rparr>))"

text \<open>\<^verbatim>\<open>/Signature: `([^`]+)`/\<close>\<close>

definition not_bt :: "char \<Rightarrow> bool" where
  "not_bt c = (c \<noteq> bt)"

definition rx_signature :: rx where
  "rx_signature = Seq (Lit (''Signature: '' @ [bt])) (Seq (Grp (Plus not_bt)) (Lit [bt]))"

fun closeResolvedIssues :: "string \<Rightarrow> Tracker \<Rightarrow> Issue list \<Rightarrow> ViolationGroup list \<Rightarrow> Tracker" where
  "closeResolvedIssues now t [] currentGroups = t"
| "closeResolvedIssues now t (issue # rest) currentGroups =
     (case search rx_signature (i_body issue) of
        None \<Rightarrow> closeResolvedIssues now t rest currentGroups
      | Some caps \<Rightarrow>
          (let signature = caps ! 0 in
           if signature \<notin> set (map g_signature currentGroups)
           then
             (let t1 = modify_issue (i_number issue) (\<lambda>i. i\<lparr> i_state := IssueClosed \<rparr>) t;
                  comment = [CHR 0xE2, CHR 0x9C, CHR 0x85] @
                    '' **Resolved**: This accessibility issue was not found in the '' @
                    ''latest scan and has been automatically closed.'' @ [nl, nl] @
                    ''If this was resolved manually, great work! If the issue still exists, '' @
                    ''please reopen this issue.'' @ [nl, nl] @
                    ''*Closed at: '' @ now @ ''*'';
                  t2 = modify_issue (i_number issue)
                         (\<lambda>i. i\<lparr> i_comments := i_comments i @ [comment] \<rparr>) t1
              in closeResolvedIssues now t2 rest currentGroups)
           else closeResolvedIssues now t rest currentGroups))"

text \<open>The loop of syncIssues over the groups; \<open>existingIssues\<close> is the listing read before it.\<close>

fun sync_loop ::
  "string \<Rightarrow> Issue list \<Rightarrow> ViolationGroup list \<Rightarrow> Tracker \<times> IssueResult list \<Rightarrow>
   Tracker \<times> IssueResult list" where
  "sync_loop now existingIssues [] (t, results) = (t, results)"
| "sync_loop now existingIssues (grp # rest) (t, results) =
     (case findMatchingIssue grp existingIssues of
        Some existingIssue \<Rightarrow>
          (let (t1, result) = updateIssue now t (i_number existingIssue) grp
           in sync_loop now existingIssues rest (t1, results @ [result]))
      | None \<Rightarrow>
          (let (t1, result) = createIssue t grp
           in sync_loop now existingIssues rest (t1, results @ [result])))"

definition syncIssues :: "string \<Rightarrow> Tracker \<Rightarrow> ViolationGroup list \<Rightarrow> Tracker \<times> IssueResult list" where
  "syncIssues now t groups =
     (let existingIssues = getExistingA11yIssues t;
          (t1, results) = sync_loop now existingIssues groups (t, [])
      in (closeResolvedIssues now t1 existingIssues groups, results))"

section \<open>The crawler (crawler.ts)\<close>

text \<open>
  The browser, the network and the URL parser are external. A world fixes what they answer:
  \<open>parse_url\<close> is \<^verbatim>\<open>new URL(s)\<close> (\<open>None\<close> when it throws), \<open>goto\<close> is the outcome of
  loading a page (each URL is loaded at most once in a crawl), \<open>robots\<close> the outcome of the
  request for \<^verbatim>\<open>/robots.txt\<close>.
\<close>

record URL =
  hostname :: string
  pathname :: string

text \<open>
  An anchor of a loaded page, after \<^verbatim>\<open>new URL(href, window.location.href)\<close>: \<open>None\<close> when
  the constructor throws, else the host name and the \<^verbatim>\<open>href\<close> with its fragment removed.
\<close>

type_synonym Anchor = "(string \<times> string) option"

datatype PageLoad =
    NavigationError
  | Loaded int string "Anchor list"

datatype RobotsFetch =
    FetchFails
  | FetchTimesOut
  | RobotsResponse int "string option"

record World =
  parse_url :: "string \<Rightarrow> URL option"
  goto :: "string \<Rightarrow> PageLoad"
  robots :: RobotsFetch

record CrawlOptions =
  baseUrl :: string
  maxPages :: "int option"
  maxDepth :: "int option"
  includePatterns :: "string list option"
  excludePatterns :: "string list option"
  respectRobotsTxt :: "bool option"

record CrawlTask =
  t_url :: string
  t_depth :: int

record CrawlResult =
  r_url :: string
  r_depth :: int
  r_statusCode :: int
  r_title :: string

definition default_excludePatterns :: "string list" where
  "default_excludePatterns =
     [''/api/'', ''/admin/'', ''.pdf'', ''.zip'', ''.jpg'', ''.png'', ''.gif'', ''.svg'', ''/cdn-cgi/'']"

text \<open>\<^verbatim>\<open>[...new Set(links)]\<close>: the first occurrence of each element, in order.\<close>

fun dedup :: "'a list \<Rightarrow> 'a list \<Rightarrow> 'a list" where
  "dedup seen [] = []"
| "dedup seen (x # xs) = (if x \<in> set seen then dedup seen xs else x # dedup (x # seen) xs)"

definition extractLinks :: "Anchor list \<Rightarrow> string \<Rightarrow> string list" where
  "extractLinks anchors baseHostname =
     dedup [] (concat (map (\<lambda>a. case a of
                               None \<Rightarrow> []
                             | Some (host, href) \<Rightarrow> if host = baseHostname then [href] else [])
                      anchors))"

text \<open>\<^verbatim>\<open>response.ok\<close>\<close>

definition response_ok :: "int \<Rightarrow> bool" where
  "response_ok status = (200 \<le> status \<and> status \<le> 299)"

text \<open>The loop of fetchRobotsTxt over the lines of the file.\<close>

fun robots_lines :: "bool \<Rightarrow> string list \<Rightarrow> string list" where
  "robots_lines isUserAgentAll [] = []"
| "robots_lines isUserAgentAll (line # rest) =
     (let trimmed = trim line;
          isUserAgentAll1 = (if startsWith trimmed ''User-agent:'' then str_includes trimmed ''*''
                             else isUserAgentAll)
      in (if isUserAgentAll1 \<and> startsWith trimmed ''Disallow:''
          then (let path = trim (substring_from trimmed (length ''Disallow:''))
                in if path \<noteq> [] then [path] else [])
          else []) @ robots_lines isUserAgentAll1 rest)"

definition fetchRobotsTxt :: "World \<Rightarrow> string \<Rightarrow> string list" where
  "fetchRobotsTxt w base =
     (case parse_url w base of
        None \<Rightarrow> []
      | Some u \<Rightarrow>
          (case robots w of
             FetchFails \<Rightarrow> []
           | FetchTimesOut \<Rightarrow> []
           | RobotsResponse status body \<Rightarrow>
               if \<not> response_ok status then []
               else (case body of
                       None \<Rightarrow> []
                     | Some text \<Rightarrow> robots_lines False (split text [nl]))))"

definition shouldExclude :: "World \<Rightarrow> string \<Rightarrow> string list \<Rightarrow> string list \<Rightarrow> bool" where
  "shouldExclude w url excludes disallowedPaths =
     (if list_ex (\<lambda>pattern. str_includes url pattern) excludes then True
      else (case parse_url w url of
              None \<Rightarrow> True
            | Some urlObj \<Rightarrow> list_ex (\<lambda>path. startsWith (pathname urlObj) path) disallowedPaths))"

definition matchesAnyPattern :: "string \<Rightarrow> string list \<Rightarrow> bool" where
  "matchesAnyPattern url patterns = list_ex (\<lambda>pattern. str_includes url pattern) patterns"

text \<open>The constants of one crawl: the options with their defaults, and the robots paths.\<close>

record CrawlParams =
  p_maxPages :: int
  p_maxDepth :: int
  p_includePatterns :: "string list"
  p_excludePatterns :: "string list"
  p_disallowedPaths :: "string list"
  p_baseHostname :: string

record CrawlState =
  toVisit :: "CrawlTask list"
  visited :: "string list"
  results :: "CrawlResult list"

text \<open>One iteration of the \<^verbatim>\<open>while\<close> loop, for a non-empty queue.\<close>

definition crawl_step :: "World \<Rightarrow> CrawlParams \<Rightarrow> CrawlState \<Rightarrow> CrawlState" where
  "crawl_step w p st =
     (case toVisit st of
        [] \<Rightarrow> st
      | task # rest \<Rightarrow>
          (let st1 = st\<lparr> toVisit := rest \<rparr> in
           if t_url task \<in> set (visited st1) then st1
           else if t_depth task > p_maxDepth p then st1
           else if shouldExclude w (t_url task) (p_excludePatterns p) (p_disallowedPaths p) then st1
           else if p_includePatterns p \<noteq> [] \<and> \<not> matchesAnyPattern (t_url task) (p_includePatterns p)
             then st1
           else
             (let st2 = st1\<lparr> visited := t_url task # visited st1 \<rparr> in
              case goto w (t_url task) of
                NavigationError \<Rightarrow> st2
              | Loaded statusCode title anchors \<Rightarrow>
                  if statusCode \<ge> 200 \<and> statusCode < 400
                  then
                    (let st3 = st2\<lparr> results := results st2 @
                                 [\<lparr> r_url = t_url task, r_depth = t_depth task,
                                    r_statusCode = statusCode, r_title = title \<rparr>] \<rparr>
                     in if t_depth task < p_maxDepth p
                        then st3\<lparr> toVisit := toVisit st3 @
                               map (\<lambda>link. \<lparr> t_url = link, t_depth = t_depth task + 1 \<rparr>)
                                 (filter (\<lambda>link. link \<notin> set (visited st3))
                                    (extractLinks anchors (p_baseHostname p))) \<rparr>
                        else st3)
                  else st2)))"

definition task_weight :: "CrawlParams \<Rightarrow> CrawlTask \<Rightarrow> nat" where
  "task_weight p task = nat (p_maxDepth p + 1 - t_depth task)"

text \<open>
  The \<^verbatim>\<open>while\<close> loop. It ends: every iteration takes one task off the queue and adds
  only tasks one level deeper, none below \<^verbatim>\<open>maxDepth\<close>.
\<close>

function crawl_loop :: "World \<Rightarrow> CrawlParams \<Rightarrow> CrawlState \<Rightarrow> CrawlState" where
  "crawl_loop w p st =
     (if toVisit st \<noteq> [] \<and> int (length (results st)) < p_maxPages p
      then crawl_loop w p (crawl_step w p st)
      else st)"
  by pat_completeness auto
termination
proof (relation "inv_image (mult {(a, b). a < b})
                   (\<lambda>(w, p, st). mset (map (task_weight p) (toVisit st)))")
  show "wf (inv_image (mult {(a::nat, b). a < b})
              (\<lambda>(w, p, st). mset (map (task_weight p) (toVisit st))))"
    using wf_less by (simp add: wf_mult)
next
  fix w :: World and p :: CrawlParams and st :: CrawlState
  assume "toVisit st \<noteq> [] \<and> int (length (results st)) < p_maxPages p"
  then obtain task rest where tv: "toVisit st = task # rest"
    by (cases "toVisit st") auto
  have "\<exists>new. toVisit (crawl_step w p st) = rest @ new \<and>
          (\<forall>k \<in> set new. task_weight p k < task_weight p task)"
  proof (cases "toVisit (crawl_step w p st) = rest")
    case True
    then show ?thesis by (intro exI[of _ "[]"]) simp
  next
    case False
    then show ?thesis
      using tv
      by (auto simp: crawl_step_def Let_def task_weight_def split: if_splits PageLoad.splits)
  qed
  then obtain new where nw: "toVisit (crawl_step w p st) = rest @ new"
    and lt: "\<forall>k \<in> set new. task_weight p k < task_weight p task"
    by blast
  have "(mset (map (task_weight p) rest) + mset (map (task_weight p) new),
         mset (map (task_weight p) rest) + {#task_weight p task#}) \<in> mult {(a, b). a < b}"
    by (rule one_step_implies_mult) (use lt in auto)
  then show "((w, p, crawl_step w p st), (w, p, st)) \<in>
      inv_image (mult {(a, b). a < b}) (\<lambda>(w, p, st). mset (map (task_weight p) (toVisit st)))"
    by (simp add: nw tv add.commute)
qed

declare crawl_loop.simps [simp del]

text \<open>The state after at most \<open>n\<close> iterations of the loop: the reachable states.\<close>

fun crawl_iter :: "World \<Rightarrow> CrawlParams \<Rightarrow> nat \<Rightarrow> CrawlState \<Rightarrow> CrawlState" where
  "crawl_iter w p 0 st = st"
| "crawl_iter w p (Suc n) st =
     (if toVisit st \<noteq> [] \<and> int (length (results st)) < p_maxPages p
      then crawl_iter w p n (crawl_step w p st)
      else st)"

datatype CrawlError = InvalidBaseUrl

text \<open>The destructuring of the options, with its defaults.\<close>

definition opt_maxPages :: "CrawlOptions \<Rightarrow> int" where
  "opt_maxPages options = (case maxPages options of None \<Rightarrow> 100 | Some n \<Rightarrow> n)"

definition opt_maxDepth :: "CrawlOptions \<Rightarrow> int" where
  "opt_maxDepth options = (case maxDepth options of None \<Rightarrow> 3 | Some n \<Rightarrow> n)"

definition opt_includePatterns :: "CrawlOptions \<Rightarrow> string list" where
  "opt_includePatterns options = (case includePatterns options of None \<Rightarrow> [] | Some ps \<Rightarrow> ps)"

definition opt_excludePatterns :: "CrawlOptions \<Rightarrow> string list" where
  "opt_excludePatterns options =
     (case excludePatterns options of None \<Rightarrow> default_excludePatterns | Some ps \<Rightarrow> ps)"

definition opt_respectRobotsTxt :: "CrawlOptions \<Rightarrow> bool" where
  "opt_respectRobotsTxt options = (case respectRobotsTxt options of None \<Rightarrow> True | Some b \<Rightarrow> b)"

definition crawl_params :: "World \<Rightarrow> CrawlOptions \<Rightarrow> URL \<Rightarrow> CrawlParams" where
  "crawl_params w options baseUrlObj =
     \<lparr> p_maxPages = opt_maxPages options,
       p_maxDepth = opt_maxDepth options,
       p_includePatterns = opt_includePatterns options,
       p_excludePatterns = opt_excludePatterns options,
       p_disallowedPaths =
         (if opt_respectRobotsTxt options then fetchRobotsTxt w (baseUrl options) else []),
       p_baseHostname = hostname baseUrlObj \<rparr>"

definition initial_state :: "CrawlOptions \<Rightarrow> CrawlState" where
  "initial_state options =
     \<lparr> toVisit = [\<lparr> t_url = baseUrl options, t_depth = 0 \<rparr>], visited = [], results = [] \<rparr>"

definition crawlWebsite :: "World \<Rightarrow> CrawlOptions \<Rightarrow> CrawlError + CrawlResult list" where
  "crawlWebsite w options =
     (case parse_url w (baseUrl options) of
        None \<Rightarrow> Inl InvalidBaseUrl
      | Some baseUrlObj \<Rightarrow>
          Inr (results (crawl_loop w (crawl_params w options baseUrlObj) (initial_state options))))"

section \<open>Auxiliary notions for the proofs\<close>

subsection \<open>Grouping\<close>

text \<open>The instances of a scan in the order the two loops of groupViolations read them.\<close>

definition all_instances ::
  "(string \<times> ViolationWithContext list) list \<Rightarrow> (string \<times> ViolationWithContext) list" where
  "all_instances violationsByPage =
     concat (map (\<lambda>(url, violations). map (Pair url) violations) violationsByPage)"

text \<open>The occurrence that groupViolations records for an instance.\<close>

definition occurrence_of :: "string \<times> ViolationWithContext \<Rightarrow> Occurrence" where
  "occurrence_of inst =
     \<lparr> occ_url = fst inst,
       occ_selector = cssSelector (dom_context (snd inst)),
       occ_html = html (snd inst) \<rparr>"

definition instances_with ::
  "(string \<Rightarrow> string) \<Rightarrow> string \<Rightarrow> (string \<times> ViolationWithContext) list \<Rightarrow>
   (string \<times> ViolationWithContext) list" where
  "instances_with md5 k insts =
     filter (\<lambda>inst. createViolationSignature md5 (snd inst) = k) insts"

text \<open>
  The loop invariant of grouping: after the instances \<open>insts\<close>, the map has one entry per
  signature seen, and the entry of \<open>k\<close> lists the instances with signature \<open>k\<close> in order.
\<close>

definition groups_of ::
  "(string \<Rightarrow> string) \<Rightarrow> (string \<times> ViolationWithContext) list \<Rightarrow> GroupMap \<Rightarrow> bool" where
  "groups_of md5 insts groups =
     (distinct (map fst groups) \<and>
      set (map fst groups) = set (map (\<lambda>inst. createViolationSignature md5 (snd inst)) insts) \<and>
      (\<forall>(k, g) \<in> set groups.
         g_signature g = k \<and>
         occurrences g = map occurrence_of (instances_with md5 k insts) \<and>
         totalOccurrences g = int (length (instances_with md5 k insts))))"

fun add_all ::
  "(string \<Rightarrow> string) \<Rightarrow> (string \<times> ViolationWithContext) list \<Rightarrow> GroupMap \<Rightarrow> GroupMap" where
  "add_all md5 [] groups = groups"
| "add_all md5 (inst # rest) groups =
     add_all md5 rest (add_violation md5 (fst inst) groups (snd inst))"

text \<open>What a group holds, apart from its representative fields and from order.\<close>

definition group_content :: "ViolationGroup \<Rightarrow> string \<times> int \<times> Occurrence multiset" where
  "group_content g = (g_signature g, totalOccurrences g, mset (occurrences g))"

definition content_of ::
  "(string \<Rightarrow> string) \<Rightarrow> (string \<times> ViolationWithContext) multiset \<Rightarrow> string \<Rightarrow>
   string \<times> int \<times> Occurrence multiset" where
  "content_of md5 M k =
     (k, int (size (filter_mset (\<lambda>inst. createViolationSignature md5 (snd inst) = k) M)),
      image_mset occurrence_of
        (filter_mset (\<lambda>inst. createViolationSignature md5 (snd inst) = k) M))"

text \<open>
  The groups in the words of the specification. \<open>first_seen\<close> lists each element once, at
  the place where it occurs first. The group of a signature takes its representative
  fields from the first instance with that signature, lists the instances with that
  signature in the order they are met, and counts them. \<open>groups_in_order\<close> holds one such
  group for each signature, in the order the signatures are first met.
\<close>

fun first_seen :: "'a list \<Rightarrow> 'a list" where
  "first_seen [] = []"
| "first_seen (x # xs) = x # removeAll x (first_seen xs)"

definition group_as_specified ::
  "(string \<Rightarrow> string) \<Rightarrow> (string \<times> ViolationWithContext) list \<Rightarrow> string \<Rightarrow> ViolationGroup" where
  "group_as_specified md5 insts k =
     (let members = instances_with md5 k insts;
          first = snd (hd members)
      in \<lparr> g_signature = k,
           g_ruleId = ruleId first,
           g_impact = impact_or_unknown first,
           g_description = description first,
           g_help = helpText first,
           g_helpUrl = helpUrl first,
           g_wcagTags = wcagTags first,
           exampleHtml = html first,
           exampleSelector = cssSelector (dom_context first),
           occurrences = map occurrence_of members,
           totalOccurrences = int (length members) \<rparr>)"

definition groups_in_order ::
  "(string \<Rightarrow> string) \<Rightarrow> (string \<times> ViolationWithContext list) list \<Rightarrow> ViolationGroup list" where
  "groups_in_order md5 violationsByPage =
     (let insts = all_instances violationsByPage
      in map (group_as_specified md5 insts)
           (first_seen (map (\<lambda>inst. createViolationSignature md5 (snd inst)) insts)))"

text \<open>
  The order of the returned array: by impact, critical first and unknown last, and within
  one impact by \<^verbatim>\<open>totalOccurrences\<close>, the larger first. Two groups tie when they have the
  same impact and the same count.
\<close>

definition impact_rank :: "string \<Rightarrow> nat" where
  "impact_rank i =
     (if i = ''critical'' then 0 else if i = ''serious'' then 1 else if i = ''moderate'' then 2
      else if i = ''minor'' then 3 else 4)"

definition precedes :: "ViolationGroup \<Rightarrow> ViolationGroup \<Rightarrow> bool" where
  "precedes a b =
     (impact_rank (g_impact a) < impact_rank (g_impact b) \<or>
      (impact_rank (g_impact a) = impact_rank (g_impact b) \<and>
       totalOccurrences b \<le> totalOccurrences a))"

definition ties :: "ViolationGroup \<Rightarrow> ViolationGroup \<Rightarrow> bool" where
  "ties a b =
     (impact_rank (g_impact a) = impact_rank (g_impact b) \<and>
      totalOccurrences a = totalOccurrences b)"

text \<open>A group whose impact is one of the five names of the comparator's table.\<close>

definition known_impact :: "ViolationGroup \<Rightarrow> bool" where
  "known_impact g = (impactOrder (g_impact g) = Some (int (impact_rank (g_impact g))))"

subsection \<open>Reconciliation\<close>

text \<open>
  An issue carries the signature of a group when its body embeds the signature token of
  the group; its title names the rule when it contains the \<^verbatim>\<open>ruleId\<close>.
\<close>

definition embeds_signature :: "Issue \<Rightarrow> ViolationGroup \<Rightarrow> bool" where
  "embeds_signature issue grp = str_includes (i_body issue) (signature_token (g_signature grp))"

definition title_has_rule :: "Issue \<Rightarrow> ViolationGroup \<Rightarrow> bool" where
  "title_has_rule issue grp = str_includes (i_title issue) (g_ruleId grp)"

definition open_issue_count :: "Tracker \<Rightarrow> nat" where
  "open_issue_count t = length (filter (\<lambda>i. i_state i = IssueOpen) (issues t))"

subsection \<open>Crawling\<close>

definition bound_inv :: "CrawlParams \<Rightarrow> CrawlState \<Rightarrow> bool" where
  "bound_inv p st =
     (int (length (results st)) \<le> p_maxPages p \<and>
      (\<forall>r \<in> set (results st). r_depth r \<le> p_maxDepth p))"

definition visit_inv :: "CrawlState \<Rightarrow> bool" where
  "visit_inv st =
     (distinct (visited st) \<and> distinct (map r_url (results st)) \<and>
      (\<forall>r \<in> set (results st). r_url r \<in> set (visited st)))"

section \<open>Example inputs\<close>

text \<open>
  A site of three pages: the home page links to \<open>/a\<close> and \<open>/b\<close>, and \<open>/a\<close> links to
  \<open>/b\<close>. Its \<^verbatim>\<open>robots.txt\<close> answers 404.
\<close>

definition example_world :: World where
  "example_world =
     \<lparr> parse_url = (\<lambda>s. Some \<lparr> hostname = ''h'', pathname = drop 8 s \<rparr>),
       goto = (\<lambda>u. if u = ''http://h/''
                      then Loaded 200 ''home'' [Some (''h'', ''http://h/a''), Some (''h'', ''http://h/b'')]
                    else if u = ''http://h/a''
                      then Loaded 200 ''a'' [Some (''h'', ''http://h/b'')]
                    else Loaded 200 ''b'' []),
       robots = RobotsResponse 404 None \<rparr>"

definition default_options :: CrawlOptions where
  "default_options =
     \<lparr> baseUrl = ''http://h/'', maxPages = None, maxDepth = None, includePatterns = None,
       excludePatterns = None, respectRobotsTxt = None \<rparr>"

definition two_page_options :: CrawlOptions where
  "two_page_options = default_options\<lparr> maxPages := Some 2, maxDepth := Some 1 \<rparr>"

text \<open>
  A site entered by its bare host, \<^verbatim>\<open>https://example.com\<close>, which the URL parser reads
  as it reads \<^verbatim>\<open>https://example.com/\<close>. Its home page links to \<^verbatim>\<open>/\<close>; the anchor resolves
  to \<^verbatim>\<open>https://example.com/\<close>.
\<close>

definition bare_host_world :: World where
  "bare_host_world =
     \<lparr> parse_url = (\<lambda>s. if s = ''https://example.com'' \<or> s = ''https://example.com/''
                          then Some \<lparr> hostname = ''example.com'', pathname = ''/'' \<rparr>
                          else None),
       goto = (\<lambda>u. Loaded 200 ''Home'' [Some (''example.com'', ''https://example.com/'')]),
       robots = RobotsResponse 404 None \<rparr>"

definition bare_host_options :: CrawlOptions where
  "bare_host_options = default_options\<lparr> baseUrl := ''https://example.com'' \<rparr>"

definition example_params :: CrawlParams where
  "example_params =
     crawl_params example_world default_options \<lparr> hostname = ''h'', pathname = ''/'' \<rparr>"

text \<open>
  Two instances of the rule button-name on two pages: the buttons differ in their text,
  their id and a generated class token.
\<close>

definition click_button :: ViolationWithContext where
  "click_button =
     \<lparr> ruleId = ''button-name'', impact = Some Critical,
       description = ''Ensures buttons have discernible text'',
       helpText = ''Buttons must have discernible text'',
       helpUrl = ''https://dequeuniversity.com/rules/axe/4.8/button-name'',
       wcagTags = [''wcag2a'', ''wcag412''],
       html = ''<button id='' @ [dq] @ ''a1'' @ [dq] @ '' class='' @ [dq] @ ''btn css-123456'' @ [dq] @
              ''>Click</button>'',
       dom_context = \<lparr> cssSelector = ''html > body > main > div > button'' \<rparr> \<rparr>"

definition submit_button :: ViolationWithContext where
  "submit_button =
     click_button\<lparr>
       html := ''<button id='' @ [dq] @ ''b2'' @ [dq] @ '' class='' @ [dq] @ ''btn css-abcdef'' @ [dq] @
               ''>Submit</button>'',
       dom_context := \<lparr> cssSelector = ''body > main > div > button'' \<rparr> \<rparr>"

definition example_pages :: "(string \<times> ViolationWithContext list) list" where
  "example_pages = [(''http://h/'', [click_button]), (''http://h/a'', [submit_button])]"

text \<open>An instance whose HTML has no opening tag.\<close>

definition unparseable :: ViolationWithContext where
  "unparseable = click_button\<lparr> html := ''Element not found in DOM'' \<rparr>"

text \<open>Three instances on two pages, in two groups.\<close>

definition mixed_pages :: "(string \<times> ViolationWithContext list) list" where
  "mixed_pages = [(''http://h/'', [unparseable, click_button]), (''http://h/a'', [submit_button])]"

text \<open>
  A text field whose title ends in \<^verbatim>\<open>id=\<close> after a space, with the id given, a violation
  of the rule label on it, and the data its signature is the hash of, as a function of the
  semantic attributes found.
\<close>

definition field_html :: "string \<Rightarrow> string" where
  "field_html ident =
     ''<input title='' @ [dq] @ ''user id='' @ [dq] @ '' id='' @ [dq] @ ident @ [dq] @
     '' type='' @ [dq] @ ''text'' @ [dq] @ ''>''"

definition field_violation :: "string \<Rightarrow> ViolationWithContext" where
  "field_violation ident =
     \<lparr> ruleId = ''label'', impact = Some Critical,
       description = ''Ensures every form element has a label'',
       helpText = ''Form elements must have labels'',
       helpUrl = ''https://dequeuniversity.com/rules/axe/4.8/label'',
       wcagTags = [''wcag2a'', ''wcag412''],
       html = field_html ident,
       dom_context = \<lparr> cssSelector = ''form > div > input'' \<rparr> \<rparr>"

definition field_signature_data :: "string \<Rightarrow> string" where
  "field_signature_data semanticAttributes =
     json_object [(''ruleId'', ''label''), (''tagName'', ''input''),
                  (''semanticAttributes'', semanticAttributes),
                  (''selectorPattern'', ''form > div > input''), (''impact'', ''critical'')]"

text \<open>
  A tracker holding one open issue, filed by an earlier scan for the rule image-alt under
  the signature the group had then; the body is cut down to its signature line. The
  current scan finds the same rule under another signature.
\<close>

definition image_alt_group :: ViolationGroup where
  "image_alt_group =
     \<lparr> g_signature = ''92eb5ffee6ae2fec3ad71c777531578f'',
       g_ruleId = ''image-alt'',
       g_impact = ''critical'',
       g_description = ''Ensures <img> elements have alternate text'',
       g_help = ''Images must have alternate text'',
       g_helpUrl = ''https://dequeuniversity.com/rules/axe/4.8/image-alt'',
       g_wcagTags = [''wcag2a'', ''wcag111''],
       exampleHtml = ''<img src='' @ [dq] @ ''logo.png'' @ [dq] @ ''>'',
       exampleSelector = ''header > div > a > img'',
       occurrences = [\<lparr> occ_url = ''http://h/'', occ_selector = ''header > div > a > img'',
                         occ_html = ''<img src='' @ [dq] @ ''logo.png'' @ [dq] @ ''>'' \<rparr>],
       totalOccurrences = 1 \<rparr>"

definition earlier_issue :: Issue where
  "earlier_issue =
     \<lparr> i_number = 1,
       i_title = ''[A11y] image-alt: Ensures <img> elements have alternate text'',
       i_body = ''*Signature: '' @ [bt] @ ''0cc175b9c0f1b6a831c399e269772661'' @ [bt] @ ''*'' @ [nl],
       i_state = IssueOpen,
       i_labels = [''accessibility'', ''a11y:image-alt'', ''impact:critical'', ''wcag2a'', ''wcag111''],
       i_comments = [] \<rparr>"

definition earlier_tracker :: Tracker where
  "earlier_tracker = \<lparr> owner = ''o'', repo = ''r'', issues = [earlier_issue], next_number = 2 \<rparr>"

definition first_run :: "Tracker \<times> IssueResult list" where
  "first_run = syncIssues ''t1'' earlier_tracker [image_alt_group]"

definition second_run :: "Tracker \<times> IssueResult list" where
  "second_run = syncIssues ''t2'' (fst first_run) [image_alt_group]"

text \<open>
  A tracker after a scan that found two groups of the rule image-alt and filed an issue
  for each: issue 1 carries the signature of \<open>image_alt_group\<close>, issue 2, the newer one
  and so listed first, the signature of \<open>other_image_group\<close>. The next scan finds the same
  two groups.
\<close>

definition other_image_group :: ViolationGroup where
  "other_image_group =
     image_alt_group\<lparr> g_signature := ''0cc175b9c0f1b6a831c399e269772661'',
                      exampleSelector := ''main > p > img'' \<rparr>"

definition issue_of_other :: Issue where
  "issue_of_other = earlier_issue\<lparr> i_number := 2 \<rparr>"

definition issue_of_group :: Issue where
  "issue_of_group =
     earlier_issue\<lparr> i_body := ''*Signature: '' @ [bt] @ ''92eb5ffee6ae2fec3ad71c777531578f'' @ [bt] @
                               ''*'' @ [nl] \<rparr>"

definition two_issue_tracker :: Tracker where
  "two_issue_tracker =
     \<lparr> owner = ''o'', repo = ''r'', issues = [issue_of_other, issue_of_group], next_number = 3 \<rparr>"

definition shadow_run :: "Tracker \<times> IssueResult list" where
  "shadow_run = syncIssues ''t1'' two_issue_tracker [image_alt_group, other_image_group]"

section \<open>Elements and their serialisation\<close>

text \<open>
  The field \<^verbatim>\<open>html\<close> of a violation is the \<^verbatim>\<open>outerHTML\<close> of the element: the opening tag
  with its attributes, each written as a space, the name, an equals sign and the value between
  double quotes, and then the content and the closing tag, which are kept here as one text.
\<close>

type_synonym Attr = "string \<times> string"

record Element =
  el_tag :: string
  el_attrs :: "Attr list"
  el_inner :: string

definition render_attr :: "Attr \<Rightarrow> string" where
  "render_attr a = '' '' @ fst a @ ''='' @ [dq] @ snd a @ [dq]"

definition render_attrs :: "Attr list \<Rightarrow> string" where
  "render_attrs as = concat (map render_attr as)"

definition render :: "Element \<Rightarrow> string" where
  "render e = ''<'' @ el_tag e @ render_attrs (el_attrs e) @ ''>'' @ el_inner e"

text \<open>
  An element is well formed when its tag name starts with a word character, its tag and
  attribute names hold no white space, double quote, equals sign or closing angle
  bracket, and no
  attribute value holds a double quote or ends in an equals sign. The content is any text.
\<close>

definition name_char :: "char \<Rightarrow> bool" where
  "name_char c = (\<not> is_space c \<and> c \<noteq> dq \<and> c \<noteq> CHR ''='' \<and> c \<noteq> CHR ''>'')"

definition wf_value :: "string \<Rightarrow> bool" where
  "wf_value v = (dq \<notin> set v \<and> (v = [] \<or> last v \<noteq> CHR ''=''))"

definition wf_attr :: "Attr \<Rightarrow> bool" where
  "wf_attr a = (list_all name_char (fst a) \<and> wf_value (snd a))"

definition wf_element :: "Element \<Rightarrow> bool" where
  "wf_element e =
     (el_tag e \<noteq> [] \<and> is_word (hd (el_tag e)) \<and> list_all name_char (el_tag e) \<and>
      list_all wf_attr (el_attrs e))"

text \<open>A text of ASCII characters; on such text the model of strings is exact.\<close>

definition is_ascii :: "char \<Rightarrow> bool" where
  "is_ascii c = (of_char c < (128::nat))"

subsection \<open>Elements that differ only in text, id values and generated class tokens\<close>

text \<open>
  A class token looks generated when it holds three digits in a row or six characters of
  \<^verbatim>\<open>a-f0-9\<close> in a row. The tokens of a class value are read after white space is collapsed
  and letters are lowered. Two attributes are related when they have the same name and
  the same value, or are id attributes, or are class attributes with the same tokens once
  the generated ones are left out; two elements, when they have the same tag and related
  attributes in the same order. The content is not compared.
\<close>

fun has_run :: "(char \<Rightarrow> bool) \<Rightarrow> nat \<Rightarrow> string \<Rightarrow> bool" where
  "has_run p k [] = (k = 0)"
| "has_run p k (c # s) = ((k \<le> length (c # s) \<and> list_all p (take k (c # s))) \<or> has_run p k s)"

definition looks_generated :: "string \<Rightarrow> bool" where
  "looks_generated token = (has_run is_digit 3 token \<or> has_run is_hex_lower 6 token)"

definition norm_value :: "string \<Rightarrow> string" where
  "norm_value v = toLowerCase (replace_all rx_spaces (\<lambda>m caps. '' '') v)"

definition kept_tokens :: "string \<Rightarrow> string list" where
  "kept_tokens v = filter (\<lambda>token. \<not> looks_generated token) (split (norm_value v) '' '')"

definition attr_rel :: "Attr \<Rightarrow> Attr \<Rightarrow> bool" where
  "attr_rel a1 a2 =
     (fst a1 = fst a2 \<and>
      (snd a1 = snd a2 \<or> toLowerCase (fst a1) = ''id'' \<or>
       (toLowerCase (fst a1) = ''class'' \<and> kept_tokens (snd a1) = kept_tokens (snd a2))))"

definition same_shape :: "Element \<Rightarrow> Element \<Rightarrow> bool" where
  "same_shape e1 e2 = (el_tag e1 = el_tag e2 \<and> list_all2 attr_rel (el_attrs e1) (el_attrs e2))"

section \<open>Notions for the proof of signature stability\<close>

text \<open>A pattern that cannot start with a character of the class \<open>p\<close>.\<close>

definition fails_on :: "rx \<Rightarrow> (char \<Rightarrow> bool) \<Rightarrow> bool" where
  "fails_on b p = (\<forall>c u. p c \<longrightarrow> rx_match b (c # u) = [])"

subsection \<open>Stage 0: white space, trim, lower case\<close>

text \<open>
  \<open>collapse\<close> replaces every run of white space by one space; it is what
  \<^verbatim>\<open>.replace(/\s+/g, ' ')\<close> computes. \<open>s0\<close> is the effect of the first three steps of
  the normalisation on one attribute, \<open>inner0\<close> their effect on the content.
\<close>

function collapse :: "string \<Rightarrow> string" where
  "collapse [] = []"
| "collapse (c # s) = (if is_space c then CHR '' '' # collapse (dropWhile is_space s) else c # collapse s)"
  by pat_completeness auto
termination
  by (relation "measure length") (auto simp: le_imp_less_Suc length_dropWhile_le)

definition s0 :: "Attr \<Rightarrow> Attr" where
  "s0 a = (toLowerCase (fst a), toLowerCase (collapse (snd a)))"

definition norm0 :: "string \<Rightarrow> string" where
  "norm0 h = toLowerCase (trim (replace_all rx_spaces (\<lambda>m caps. '' '') h))"

definition inner0 :: "string \<Rightarrow> string" where
  "inner0 x = toLowerCase (rev (dropWhile is_space (rev (collapse x))))"

subsection \<open>Patterns bounded by the quotes of a value\<close>

text \<open>
  A pattern is quote bound when it does not match at the start of a text that reaches its
  first double quote without ending in an equals sign.
\<close>

definition quote_bound :: "rx \<Rightarrow> bool" where
  "quote_bound r =
     (\<forall>y rest. dq \<notin> set y \<longrightarrow> (y = [] \<or> last y \<noteq> CHR ''='') \<longrightarrow> rx_match r (y @ dq # rest) = [])"

subsection \<open>The four replacements, attribute by attribute\<close>

text \<open>
  What each \<^verbatim>\<open>replace\<close> of the normalisation does to one attribute of a well-formed
  element: the value of aria-controls and of id is emptied, a data attribute is removed,
  and a class attribute keeps the tokens that do not look generated, or is removed when
  none is left.
\<close>

definition st_id :: "Attr \<Rightarrow> Attr list" where
  "st_id a = [if fst a = ''id'' then (fst a, []) else a]"

definition st_class :: "Attr \<Rightarrow> Attr list" where
  "st_class a =
     (if fst a = ''class''
      then (let cleanClasses = join (filter (\<lambda>c. \<not> test rx_generated c) (split (snd a) '' '')) '' ''
            in if cleanClasses \<noteq> [] then [(''class'', cleanClasses)] else [])
      else [a])"

definition is_data_name :: "string \<Rightarrow> bool" where
  "is_data_name n = (\<exists>k. n = ''data-'' @ k \<and> k \<noteq> [] \<and> list_all is_az_dash k)"

definition st_data :: "Attr \<Rightarrow> Attr list" where
  "st_data a = (if is_data_name (fst a) then [] else [a])"

definition data_text :: "string \<Rightarrow> bool" where
  "data_text y = (\<exists>k. y = ''data-'' @ k @ ''='' \<and> k \<noteq> [] \<and> list_all is_az_dash k)"

definition rx_data_tail :: rx where
  "rx_data_tail = Seq (Lit ''data-'') (Seq (Plus is_az_dash) (Seq (Lit ''='') rx_quoted))"

definition st_aria :: "Attr \<Rightarrow> Attr list" where
  "st_aria a = [if suffix ''aria-controls'' (fst a) then (fst a, []) else a]"

text \<open>A text that starts with \<open>k\<close> characters of the class \<open>p\<close>.\<close>

definition starts_run :: "(char \<Rightarrow> bool) \<Rightarrow> nat \<Rightarrow> string \<Rightarrow> bool" where
  "starts_run p k u = (k \<le> length u \<and> list_all p (take k u))"

subsection \<open>Normal form of an element\<close>

text \<open>
  The attributes an attribute becomes, the content after the four replacements, the
  opening tag of the normalised text after its angle bracket, and the two captures of the
  opening-tag pattern on it.
\<close>

definition norm_attr :: "Attr \<Rightarrow> Attr list" where
  "norm_attr a =
     concat (map st_class (concat (map st_data (concat (map st_id (st_aria (s0 a)))))))"

definition inner_norm :: "string \<Rightarrow> string" where
  "inner_norm x =
     replace_all rx_class_attr clean_classes
       (replace_all rx_data_attr (\<lambda>m caps. [])
         (replace_all rx_id_attr (\<lambda>m caps. '' id='' @ [dq, dq])
           (replace_all rx_aria_controls (\<lambda>m caps. ''aria-controls='' @ [dq, dq]) (inner0 x))))"

definition open_tag :: "Element \<Rightarrow> string" where
  "open_tag e =
     toLowerCase (el_tag e) @ render_attrs (concat (map norm_attr (el_attrs e))) @ ''>''"

definition tag_name :: "string \<Rightarrow> string" where
  "tag_name ot = takeWhile is_word ot"

definition tag_attributes :: "string \<Rightarrow> string" where
  "tag_attributes ot = takeWhile not_gt (dropWhile is_word ot)"

section \<open>Example elements\<close>

text \<open>The two buttons of the example pages as elements.\<close>

definition click_element :: Element where
  "click_element =
     \<lparr> el_tag = ''button'', el_attrs = [(''id'', ''a1''), (''class'', ''btn css-123456'')],
       el_inner = ''Click</button>'' \<rparr>"

definition submit_element :: Element where
  "submit_element =
     \<lparr> el_tag = ''button'', el_attrs = [(''id'', ''b2''), (''class'', ''btn css-abcdef'')],
       el_inner = ''Submit</button>'' \<rparr>"

text \<open>The text field of \<open>field_html\<close> as an element.\<close>

definition user_field :: "string \<Rightarrow> Element" where
  "user_field ident =
     \<lparr> el_tag = ''input'',
       el_attrs = [(''title'', ''user id=''), (''id'', ident), (''type'', ''text'')],
       el_inner = [] \<rparr>"

section \<open>Properties of the crawler\<close>

lemma crawl_loop_invariant:
  assumes "P st"
    and "\<And>s. P s \<Longrightarrow> toVisit s \<noteq> [] \<Longrightarrow> int (length (results s)) < p_maxPages p \<Longrightarrow>
           P (crawl_step w p s)"
  shows "P (crawl_loop w p st)"
  using assms
proof (induction w p st rule: crawl_loop.induct)
  case (1 w p st)
  show ?case
  proof (cases "toVisit st \<noteq> [] \<and> int (length (results st)) < p_maxPages p")
    case True
    then have "P (crawl_step w p st)" using 1 by blast
    then have "P (crawl_loop w p (crawl_step w p st))"
      using 1 True by blast
    then show ?thesis using True by (subst crawl_loop.simps) simp
  next
    case False
    then show ?thesis using 1(2) by (subst crawl_loop.simps) auto
  qed
qed

lemma crawl_iter_invariant:
  assumes "P st"
    and "\<And>s. P s \<Longrightarrow> toVisit s \<noteq> [] \<Longrightarrow> int (length (results s)) < p_maxPages p \<Longrightarrow>
           P (crawl_step w p s)"
  shows "P (crawl_iter w p n st)"
  using assms by (induction n arbitrary: st) auto

lemma crawl_step_results:
  "results (crawl_step w p st) = results st \<or>
   (\<exists>r. results (crawl_step w p st) = results st @ [r] \<and> r_depth r \<le> p_maxDepth p \<and>
        r_url r \<notin> set (visited st) \<and> visited (crawl_step w p st) = r_url r # visited st)"
  by (auto simp: crawl_step_def Let_def split: list.splits PageLoad.splits)

lemma crawl_step_visited:
  "visited (crawl_step w p st) = visited st \<or>
   (\<exists>u. u \<notin> set (visited st) \<and> visited (crawl_step w p st) = u # visited st)"
  by (auto simp: crawl_step_def Let_def split: list.splits PageLoad.splits)

lemma bound_inv_step:
  assumes "bound_inv p s" "int (length (results s)) < p_maxPages p"
  shows "bound_inv p (crawl_step w p s)"
  using assms crawl_step_results[of w p s] by (auto simp: bound_inv_def)

text \<open>
  C7. For every link graph and every \<^verbatim>\<open>maxPages\<close> \<open>\<ge> 0\<close>, crawlWebsite returns (the base
  URL being one the URL parser accepts) an array of at most \<^verbatim>\<open>maxPages\<close> records, each
  of depth at most \<^verbatim>\<open>maxDepth\<close>.
\<close>

theorem crawl_bound:
  assumes "0 \<le> opt_maxPages options" and "parse_url w (baseUrl options) \<noteq> None"
  shows "\<exists>rs. crawlWebsite w options = Inr rs \<and> int (length rs) \<le> opt_maxPages options \<and>
           (\<forall>r \<in> set rs. r_depth r \<le> opt_maxDepth options)"
proof -
  obtain u where u: "parse_url w (baseUrl options) = Some u" using assms(2) by auto
  let ?p = "crawl_params w options u"
  have "bound_inv ?p (initial_state options)"
    using assms(1) by (simp add: bound_inv_def initial_state_def crawl_params_def)
  then have "bound_inv ?p (crawl_loop w ?p (initial_state options))"
    by (rule crawl_loop_invariant) (rule bound_inv_step)
  then show ?thesis
    by (simp add: crawlWebsite_def u bound_inv_def crawl_params_def)
qed

theorem crawl_bound_witness:
  "0 \<le> opt_maxPages two_page_options \<and>
   parse_url example_world (baseUrl two_page_options) \<noteq> None \<and>
   (\<exists>rs. crawlWebsite example_world two_page_options = Inr rs \<and>
         int (length rs) \<le> 2 \<and> (\<forall>r \<in> set rs. r_depth r \<le> 1))"
proof -
  have h1: "0 \<le> opt_maxPages two_page_options"
    by (simp add: opt_maxPages_def two_page_options_def)
  have h2: "parse_url example_world (baseUrl two_page_options) \<noteq> None"
    by (simp add: example_world_def)
  have "opt_maxPages two_page_options = 2" "opt_maxDepth two_page_options = 1"
    by (simp_all add: opt_maxPages_def opt_maxDepth_def two_page_options_def)
  then show ?thesis using crawl_bound[OF h1 h2] h1 h2 by simp
qed

lemma visit_inv_step:
  assumes "visit_inv s"
  shows "visit_inv (crawl_step w p s)"
proof -
  consider "results (crawl_step w p s) = results s" "visited (crawl_step w p s) = visited s"
    | u where "results (crawl_step w p s) = results s" "u \<notin> set (visited s)"
        "visited (crawl_step w p s) = u # visited s"
    | r where "results (crawl_step w p s) = results s @ [r]" "r_url r \<notin> set (visited s)"
        "visited (crawl_step w p s) = r_url r # visited s"
    using crawl_step_results[of w p s] crawl_step_visited[of w p s] by blast
  then show ?thesis
  proof cases
    case 1
    then show ?thesis using assms by (simp add: visit_inv_def)
  next
    case 2
    then show ?thesis using assms by (simp add: visit_inv_def)
  next
    case 3
    then show ?thesis using assms by (auto simp: visit_inv_def)
  qed
qed

text \<open>
  C4 fails on the code. The queue holds the base URL as it was typed and the links as the
  \<^verbatim>\<open>href\<close> the URL parser gives them, and \<^verbatim>\<open>visited\<close> compares strings. For the base URL
  \<^verbatim>\<open>https://example.com\<close> and a home page that links to \<^verbatim>\<open>/\<close>, the parser reads the
  base URL and the link as one URL, and the crawl loads and records the home page twice,
  at depth 0 and at depth 1.
\<close>

theorem start_page_crawled_twice:
  "parse_url bare_host_world ''https://example.com'' =
     parse_url bare_host_world ''https://example.com/'' \<and>
   crawlWebsite bare_host_world bare_host_options =
     Inr [\<lparr> r_url = ''https://example.com'', r_depth = 0, r_statusCode = 200, r_title = ''Home'' \<rparr>,
          \<lparr> r_url = ''https://example.com/'', r_depth = 1, r_statusCode = 200, r_title = ''Home'' \<rparr>]"
  by code_simp

text \<open>
  The queue itself may hold one URL string several times: the link loop tests
  \<^verbatim>\<open>visited\<close>, which holds the URLs already dequeued, not the queue. On the example site,
  after the home page and \<open>/a\<close> have been crawled, the queue holds \<open>/b\<close> twice.
\<close>

theorem queue_duplicate_counterexample:
  "\<not> distinct (map t_url (toVisit (crawl_iter example_world example_params 2
                                     (initial_state default_options))))"
  by code_simp

text \<open>
  What the test at the head of the loop does ensure, for URLs as strings: in every
  reachable state of the crawl loop no string is in the visited set twice and no two page
  records have the same string as URL, and so it is for the result; a string queued more
  than once is skipped when it is dequeued again.
\<close>

theorem no_duplicate_visits:
  "distinct (visited (crawl_iter w p n (initial_state options))) \<and>
   distinct (map r_url (results (crawl_iter w p n (initial_state options)))) \<and>
   distinct (map r_url (results (crawl_loop w p (initial_state options))))"
proof -
  have i: "visit_inv (initial_state options)"
    by (simp add: visit_inv_def initial_state_def)
  have "visit_inv (crawl_iter w p n (initial_state options))"
    using i by (rule crawl_iter_invariant) (rule visit_inv_step)
  moreover have "visit_inv (crawl_loop w p (initial_state options))"
    using i by (rule crawl_loop_invariant) (rule visit_inv_step)
  ultimately show ?thesis by (simp add: visit_inv_def)
qed

theorem no_duplicate_visits_witness:
  "\<not> distinct (map t_url (toVisit (crawl_iter example_world example_params 2
                                     (initial_state default_options)))) \<and>
   distinct (visited (crawl_iter example_world example_params 3 (initial_state default_options))) \<and>
   distinct (map r_url (results (crawl_iter example_world example_params 3
                                   (initial_state default_options))))"
proof -
  have "\<not> distinct (map t_url (toVisit (crawl_iter example_world example_params 2
                                     (initial_state default_options))))"
    by code_simp
  then show ?thesis
    using no_duplicate_visits[of example_world example_params 3 default_options] by simp
qed

lemma shouldExclude_robots: "shouldExclude (w\<lparr>robots := r\<rparr>) = shouldExclude w"
  by (intro ext) (simp add: shouldExclude_def)

lemma crawl_step_robots: "crawl_step (w\<lparr>robots := r\<rparr>) p st = crawl_step w p st"
  by (cases "toVisit st") (simp_all add: crawl_step_def shouldExclude_robots Let_def cong: if_cong)

lemma crawl_loop_robots: "crawl_loop (w\<lparr>robots := r\<rparr>) p st = crawl_loop w p st"
proof (induction w p st rule: crawl_loop.induct)
  case (1 w p st)
  show ?case
  proof (cases "toVisit st \<noteq> [] \<and> int (length (results st)) < p_maxPages p")
    case True
    have "crawl_loop (w\<lparr>robots := r\<rparr>) p st =
          crawl_loop (w\<lparr>robots := r\<rparr>) p (crawl_step (w\<lparr>robots := r\<rparr>) p st)"
      using True by (subst crawl_loop.simps) simp
    also have "\<dots> = crawl_loop (w\<lparr>robots := r\<rparr>) p (crawl_step w p st)"
      by (simp add: crawl_step_robots)
    also have "\<dots> = crawl_loop w p (crawl_step w p st)"
      using 1 True by blast
    also have "\<dots> = crawl_loop w p st"
      using True by (subst (2) crawl_loop.simps) simp
    finally show ?thesis .
  next
    case False
    then show ?thesis by (subst crawl_loop.simps, subst (2) crawl_loop.simps) auto
  qed
qed

lemma crawl_loop_keeps_results: "\<exists>more. results (crawl_loop w p st) = results st @ more"
proof (rule crawl_loop_invariant[where P = "\<lambda>s. \<exists>more. results s = results st @ more"])
  show "\<exists>more. results st = results st @ more" by simp
next
  fix s :: CrawlState assume "\<exists>more. results s = results st @ more"
  then obtain more where m: "results s = results st @ more" by blast
  from crawl_step_results[of w p s]
  show "\<exists>more. results (crawl_step w p s) = results st @ more"
  proof
    assume "results (crawl_step w p s) = results s"
    then show ?thesis using m by simp
  next
    assume "\<exists>r. results (crawl_step w p s) = results s @ [r] \<and> r_depth r \<le> p_maxDepth p \<and>
        r_url r \<notin> set (visited s) \<and> visited (crawl_step w p s) = r_url r # visited s"
    then obtain r where "results (crawl_step w p s) = results s @ [r]" by blast
    then have "results (crawl_step w p s) = results st @ (more @ [r])" using m by simp
    then show ?thesis by (rule exI)
  qed
qed

lemma base_page_first:
  assumes "goto w (baseUrl options) = Loaded statusCode title anchors"
    and "200 \<le> statusCode" "statusCode < 400"
    and "0 < p_maxPages p" "0 \<le> p_maxDepth p"
    and "\<not> shouldExclude w (baseUrl options) (p_excludePatterns p) (p_disallowedPaths p)"
    and "p_includePatterns p = [] \<or> matchesAnyPattern (baseUrl options) (p_includePatterns p)"
  shows "\<exists>rest. results (crawl_loop w p (initial_state options)) =
           \<lparr> r_url = baseUrl options, r_depth = 0, r_statusCode = statusCode, r_title = title \<rparr> # rest"
proof -
  let ?r = "\<lparr> r_url = baseUrl options, r_depth = 0, r_statusCode = statusCode, r_title = title \<rparr>"
  let ?s1 = "crawl_step w p (initial_state options)"
  have 1: "results ?s1 = [?r]"
    using assms by (auto simp: crawl_step_def initial_state_def Let_def)
  have "crawl_loop w p (initial_state options) = crawl_loop w p ?s1"
    using assms(4) by (subst crawl_loop.simps) (simp add: initial_state_def)
  moreover obtain more where "results (crawl_loop w p ?s1) = results ?s1 @ more"
    using crawl_loop_keeps_results by blast
  ultimately show ?thesis using 1 by simp
qed

text \<open>
  C9. When the request for \<^verbatim>\<open>robots.txt\<close> fails, times out or is answered outside
  200--299, fetchRobotsTxt yields the empty list and the run does not fail for it:
  crawlWebsite returns an array whenever the base URL is one the URL parser accepts, and
  the array starts with the record of the base page whenever that page loads with a status
  from 200 to 399, \<^verbatim>\<open>maxPages\<close> is positive, \<^verbatim>\<open>maxDepth\<close> is not negative and the exclude
  and include patterns admit the base URL. The crawl returns what it returns when
  \<^verbatim>\<open>robots.txt\<close> is served empty, and what it returns when told not to respect
  \<^verbatim>\<open>robots.txt\<close> at all.
\<close>

theorem robots_failure_unrestricted:
  assumes "robots w = FetchFails \<or> robots w = FetchTimesOut \<or>
           (\<exists>status body. robots w = RobotsResponse status body \<and> \<not> response_ok status)"
  shows "fetchRobotsTxt w (baseUrl options) = [] \<and>
         (parse_url w (baseUrl options) \<noteq> None \<longrightarrow> (\<exists>pages. crawlWebsite w options = Inr pages)) \<and>
         (\<forall>statusCode title anchors.
            parse_url w (baseUrl options) \<noteq> None \<and>
            goto w (baseUrl options) = Loaded statusCode title anchors \<and>
            200 \<le> statusCode \<and> statusCode < 400 \<and>
            0 < opt_maxPages options \<and> 0 \<le> opt_maxDepth options \<and>
            \<not> list_ex (str_includes (baseUrl options)) (opt_excludePatterns options) \<and>
            (opt_includePatterns options = [] \<or>
             matchesAnyPattern (baseUrl options) (opt_includePatterns options)) \<longrightarrow>
            (\<exists>rest. crawlWebsite w options =
               Inr (\<lparr> r_url = baseUrl options, r_depth = 0, r_statusCode = statusCode,
                      r_title = title \<rparr> # rest))) \<and>
         crawlWebsite w options =
           crawlWebsite (w\<lparr>robots := RobotsResponse 200 (Some [])\<rparr>) options \<and>
         crawlWebsite w options = crawlWebsite w (options\<lparr>respectRobotsTxt := Some False\<rparr>)"
proof -
  have f: "fetchRobotsTxt w (baseUrl options) = []"
    using assms by (auto simp: fetchRobotsTxt_def split: option.splits)
  have "robots_lines False (split [] [nl]) = []"
    by code_simp
  then have e: "fetchRobotsTxt (w\<lparr>robots := RobotsResponse 200 (Some [])\<rparr>) (baseUrl options) = []"
    by (simp add: fetchRobotsTxt_def response_ok_def split: option.splits)
  have p1: "crawl_params (w\<lparr>robots := RobotsResponse 200 (Some [])\<rparr>) options u =
            crawl_params w options u" for u
    by (simp add: crawl_params_def f e)
  have p2: "crawl_params w (options\<lparr>respectRobotsTxt := Some False\<rparr>) u = crawl_params w options u"
    for u
    by (simp add: crawl_params_def f opt_maxPages_def opt_maxDepth_def opt_includePatterns_def
        opt_excludePatterns_def opt_respectRobotsTxt_def)
  have r: "parse_url w (baseUrl options) \<noteq> None \<longrightarrow> (\<exists>pages. crawlWebsite w options = Inr pages)"
    by (auto simp: crawlWebsite_def)
  have b: "\<exists>rest. crawlWebsite w options =
             Inr (\<lparr> r_url = baseUrl options, r_depth = 0, r_statusCode = statusCode,
                    r_title = title \<rparr> # rest)"
    if u: "parse_url w (baseUrl options) \<noteq> None"
      and g: "goto w (baseUrl options) = Loaded statusCode title anchors"
      and s: "200 \<le> statusCode" "statusCode < 400"
      and m: "0 < opt_maxPages options" "0 \<le> opt_maxDepth options"
      and x: "\<not> list_ex (str_includes (baseUrl options)) (opt_excludePatterns options)"
      and i: "opt_includePatterns options = [] \<or>
              matchesAnyPattern (baseUrl options) (opt_includePatterns options)"
    for statusCode title anchors
  proof -
    obtain baseUrlObj where o: "parse_url w (baseUrl options) = Some baseUrlObj" using u by auto
    let ?p = "crawl_params w options baseUrlObj"
    have d: "p_disallowedPaths ?p = []" by (simp add: crawl_params_def f)
    have "\<not> shouldExclude w (baseUrl options) (p_excludePatterns ?p) (p_disallowedPaths ?p)"
      unfolding d using x o by (simp add: shouldExclude_def crawl_params_def)
    then have "\<exists>rest. results (crawl_loop w ?p (initial_state options)) =
           \<lparr> r_url = baseUrl options, r_depth = 0, r_statusCode = statusCode, r_title = title \<rparr> # rest"
      using g s m i by (intro base_page_first) (simp_all add: crawl_params_def)
    then show ?thesis by (simp add: crawlWebsite_def o)
  qed
  have q: "crawlWebsite w options =
             crawlWebsite (w\<lparr>robots := RobotsResponse 200 (Some [])\<rparr>) options \<and>
           crawlWebsite w options = crawlWebsite w (options\<lparr>respectRobotsTxt := Some False\<rparr>)"
    by (simp add: f crawlWebsite_def p1 p2 crawl_loop_robots initial_state_def split: option.splits)
  have bb: "\<forall>statusCode title anchors.
            parse_url w (baseUrl options) \<noteq> None \<and>
            goto w (baseUrl options) = Loaded statusCode title anchors \<and>
            200 \<le> statusCode \<and> statusCode < 400 \<and>
            0 < opt_maxPages options \<and> 0 \<le> opt_maxDepth options \<and>
            \<not> list_ex (str_includes (baseUrl options)) (opt_excludePatterns options) \<and>
            (opt_includePatterns options = [] \<or>
             matchesAnyPattern (baseUrl options) (opt_includePatterns options)) \<longrightarrow>
            (\<exists>rest. crawlWebsite w options =
               Inr (\<lparr> r_url = baseUrl options, r_depth = 0, r_statusCode = statusCode,
                      r_title = title \<rparr> # rest))"
    using b by blast
  show ?thesis
    by (intro conjI) (rule f, rule r, rule bb, rule conjunct1[OF q], rule conjunct2[OF q])
qed

theorem robots_failure_unrestricted_witness:
  "robots example_world = RobotsResponse 404 None \<and> \<not> response_ok 404 \<and>
   fetchRobotsTxt example_world (baseUrl default_options) = [] \<and>
   (\<exists>rest. crawlWebsite example_world default_options =
      Inr (\<lparr> r_url = ''http://h/'', r_depth = 0, r_statusCode = 200, r_title = ''home'' \<rparr> # rest)) \<and>
   crawlWebsite example_world default_options =
     crawlWebsite (example_world\<lparr>robots := RobotsResponse 200 (Some [])\<rparr>) default_options \<and>
   crawlWebsite example_world default_options =
     crawlWebsite example_world (default_options\<lparr>respectRobotsTxt := Some False\<rparr>)"
proof -
  have h: "robots example_world = RobotsResponse 404 None" "\<not> response_ok 404"
    by (simp_all add: example_world_def response_ok_def)
  have u: "parse_url example_world (baseUrl default_options) \<noteq> None"
    by (simp add: example_world_def)
  have g: "goto example_world (baseUrl default_options) =
             Loaded 200 ''home'' [Some (''h'', ''http://h/a''), Some (''h'', ''http://h/b'')]"
    by (simp add: example_world_def default_options_def)
  have m: "0 < opt_maxPages default_options" "0 \<le> opt_maxDepth default_options"
    "opt_includePatterns default_options = []"
    by (simp_all add: opt_maxPages_def opt_maxDepth_def opt_includePatterns_def default_options_def)
  have x: "\<not> list_ex (str_includes (baseUrl default_options)) (opt_excludePatterns default_options)"
    by code_simp
  have b: "baseUrl default_options = ''http://h/''" by (simp add: default_options_def)
  note t = robots_failure_unrestricted[of example_world default_options, OF disjI2[OF disjI2]]
  have hh: "\<exists>status body. robots example_world = RobotsResponse status body \<and> \<not> response_ok status"
    using h by blast
  have t1: "fetchRobotsTxt example_world (baseUrl default_options) = []"
    by (rule conjunct1[OF t[OF hh]])
  have t3: "\<exists>rest. crawlWebsite example_world default_options =
               Inr (\<lparr> r_url = baseUrl default_options, r_depth = 0, r_statusCode = 200,
                      r_title = ''home'' \<rparr> # rest)"
    by (rule conjunct1[OF conjunct2[OF conjunct2[OF t[OF hh]]], rule_format])
       (intro conjI, rule u, rule g, simp, simp, rule m(1), rule m(2), rule x, rule disjI1, rule m(3))
  have t4: "crawlWebsite example_world default_options =
     crawlWebsite (example_world\<lparr>robots := RobotsResponse 200 (Some [])\<rparr>) default_options"
    by (rule conjunct1[OF conjunct2[OF conjunct2[OF conjunct2[OF t[OF hh]]]]])
  have t5: "crawlWebsite example_world default_options =
     crawlWebsite example_world (default_options\<lparr>respectRobotsTxt := Some False\<rparr>)"
    by (rule conjunct2[OF conjunct2[OF conjunct2[OF conjunct2[OF t[OF hh]]]]])
  show ?thesis
    by (intro conjI) (rule h(1), rule h(2), rule t1, rule t3[unfolded b], rule t4, rule t5)
qed

section \<open>Properties of grouping\<close>

lemma add_all_append: "add_all md5 (xs @ ys) groups = add_all md5 ys (add_all md5 xs groups)"
  by (induction xs arbitrary: groups) auto

lemma page_loop_add_all: "page_loop md5 url vs groups = add_all md5 (map (Pair url) vs) groups"
  by (induction vs arbitrary: groups) auto

lemma pages_loop_add_all: "pages_loop md5 m groups = add_all md5 (all_instances m) groups"
  by (induction m arbitrary: groups) (auto simp: all_instances_def page_loop_add_all add_all_append)

lemma update_absent:
  "k \<notin> set (map fst groups) \<Longrightarrow>
   map (\<lambda>(k', g). if k' = k then (k', f g) else (k', g)) groups = groups"
  by (induction groups) auto

lemma update_keys:
  "map fst (map (\<lambda>(k', g). if k' = k then (k', f g) else (k', g)) groups) = map fst groups"
  by (induction groups) auto

lemma instances_with_snoc:
  "instances_with md5 k (insts @ [inst]) =
     instances_with md5 k insts @
       (if createViolationSignature md5 (snd inst) = k then [inst] else [])"
  by (simp add: instances_with_def)

lemma instances_with_empty:
  "k \<notin> set (map (\<lambda>inst. createViolationSignature md5 (snd inst)) insts) \<Longrightarrow>
   instances_with md5 k insts = []"
  by (induction insts) (auto simp: instances_with_def)

lemma instances_with_nonempty:
  "k \<in> set (map (\<lambda>inst. createViolationSignature md5 (snd inst)) insts) \<Longrightarrow>
   instances_with md5 k insts \<noteq> []"
  by (induction insts) (auto simp: instances_with_def)

lemma groups_of_step:
  assumes "groups_of md5 insts groups"
  shows "groups_of md5 (insts @ [(url, v)]) (add_violation md5 url groups v)"
proof -
  let ?k = "createViolationSignature md5 v"
  let ?sg = "\<lambda>inst. createViolationSignature md5 (snd inst)"
  have d: "distinct (map fst groups)"
    and ks: "set (map fst groups) = set (map ?sg insts)"
    and el: "\<And>k g. (k, g) \<in> set groups \<Longrightarrow> g_signature g = k \<and>
               occurrences g = map occurrence_of (instances_with md5 k insts) \<and>
               totalOccurrences g = int (length (instances_with md5 k insts))"
    using assms unfolding groups_of_def by auto
  show ?thesis
  proof (cases "map_of groups ?k = None")
    case True
    have nk: "?k \<notin> set (map fst groups)" using True by (simp add: map_of_eq_None_iff)
    then have e: "instances_with md5 ?k insts = []"
      using ks instances_with_empty by metis
    have "map (\<lambda>(k', g). if k' = ?k then (k', push_occurrence url v g) else (k', g)) groups = groups"
      using nk by (rule update_absent)
    then have av: "add_violation md5 url groups v = groups @ [(?k, push_occurrence url v (new_group ?k v))]"
      using True by (simp add: add_violation_def Let_def)
    have 1: "distinct (map fst (groups @ [(?k, push_occurrence url v (new_group ?k v))]))"
      using d nk by simp
    have 2: "set (map fst (groups @ [(?k, push_occurrence url v (new_group ?k v))])) =
             set (map ?sg (insts @ [(url, v)]))"
      using ks by simp
    have 3: "g_signature g = k \<and>
             occurrences g = map occurrence_of (instances_with md5 k (insts @ [(url, v)])) \<and>
             totalOccurrences g = int (length (instances_with md5 k (insts @ [(url, v)])))"
      if "(k, g) \<in> set (groups @ [(?k, push_occurrence url v (new_group ?k v))])" for k g
    proof (cases "(k, g) \<in> set groups")
      case True
      then have "k \<noteq> ?k" using nk by force
      then show ?thesis using el[OF True] by (simp add: instances_with_snoc)
    next
      case False
      then have "k = ?k" "g = push_occurrence url v (new_group ?k v)" using that by auto
      then show ?thesis
        by (simp add: instances_with_snoc e push_occurrence_def new_group_def occurrence_of_def)
    qed
    show ?thesis unfolding av groups_of_def using 1 2 3 by blast
  next
    case False
    let ?gs = "map (\<lambda>(k', g). if k' = ?k then (k', push_occurrence url v g) else (k', g)) groups"
    have av: "add_violation md5 url groups v = ?gs"
      using False by (simp add: add_violation_def Let_def)
    have ink: "?k \<in> set (map fst groups)" using False by (auto simp: map_of_eq_None_iff)
    have 1: "distinct (map fst ?gs)" using d by (simp only: update_keys)
    have 2: "set (map fst ?gs) = set (map ?sg (insts @ [(url, v)]))"
      using ks ink by (simp only: update_keys) auto
    have 3: "g_signature g = k \<and>
             occurrences g = map occurrence_of (instances_with md5 k (insts @ [(url, v)])) \<and>
             totalOccurrences g = int (length (instances_with md5 k (insts @ [(url, v)])))"
      if "(k, g) \<in> set ?gs" for k g
    proof -
      from that obtain g0 where g0: "(k, g0) \<in> set groups"
        and g: "g = (if k = ?k then push_occurrence url v g0 else g0)"
        by (auto split: if_splits)
      show ?thesis using el[OF g0] g
        by (simp add: instances_with_snoc push_occurrence_def occurrence_of_def)
    qed
    show ?thesis unfolding av groups_of_def using 1 2 3 by blast
  qed
qed

lemma groups_of_add_all: "groups_of md5 insts (add_all md5 insts [])"
proof (induction insts rule: rev_induct)
  case Nil
  then show ?case by (simp add: groups_of_def)
next
  case (snoc x xs)
  then show ?case using groups_of_step[of md5 xs "add_all md5 xs []" "fst x" "snd x"]
    by (simp add: add_all_append)
qed

lemma mset_insert_by: "mset (insert_by cmp x ys) = add_mset x (mset ys)"
  by (induction ys) auto

lemma mset_sort_by: "mset (sort_by cmp xs) = mset xs"
  by (induction xs) (auto simp: sort_by_def mset_insert_by)

lemma set_groupViolations:
  "set (groupViolations md5 m) = snd ` set (add_all md5 (all_instances m) [])"
proof -
  have "set (groupViolations md5 m) = set_mset (mset (groupViolations md5 m))" by simp
  also have "\<dots> = set (map snd (pages_loop md5 m []))"
    unfolding groupViolations_def mset_sort_by by simp
  finally show ?thesis by (simp add: pages_loop_add_all)
qed

lemma group_members:
  assumes "g \<in> set (groupViolations md5 m)"
  shows "g_signature g \<in> set (map (\<lambda>inst. createViolationSignature md5 (snd inst)) (all_instances m)) \<and>
         occurrences g = map occurrence_of (instances_with md5 (g_signature g) (all_instances m)) \<and>
         totalOccurrences g = int (length (instances_with md5 (g_signature g) (all_instances m)))"
proof -
  obtain k where kg: "(k, g) \<in> set (add_all md5 (all_instances m) [])"
    using assms unfolding set_groupViolations by auto
  have go: "groups_of md5 (all_instances m) (add_all md5 (all_instances m) [])" by (rule groups_of_add_all)
  have "k \<in> set (map fst (add_all md5 (all_instances m) []))" using kg by force
  then show ?thesis using go kg unfolding groups_of_def by auto
qed

text \<open>
  C10. In every group that groupViolations returns, \<^verbatim>\<open>totalOccurrences\<close> is the length
  of \<^verbatim>\<open>occurrences\<close> and is at least 1.
\<close>

theorem occurrence_count:
  "\<forall>g \<in> set (groupViolations md5 m). totalOccurrences g = int (length (occurrences g)) \<and> 1 \<le> totalOccurrences g"
proof
  fix g assume g: "g \<in> set (groupViolations md5 m)"
  note gm = group_members[OF g]
  from gm have "instances_with md5 (g_signature g) (all_instances m) \<noteq> []"
    using instances_with_nonempty by blast
  then show "totalOccurrences g = int (length (occurrences g)) \<and> 1 \<le> totalOccurrences g"
    using gm by (cases "instances_with md5 (g_signature g) (all_instances m)") auto
qed

theorem occurrence_count_witness:
  "\<exists>g. g \<in> set (groupViolations (\<lambda>s. s) example_pages) \<and>
       totalOccurrences g = int (length (occurrences g)) \<and> 1 \<le> totalOccurrences g"
proof -
  have "groupViolations (\<lambda>s. s) example_pages \<noteq> []"
    by code_simp
  then obtain g where "g \<in> set (groupViolations (\<lambda>s. s) example_pages)"
    by (cases "groupViolations (\<lambda>s. s) example_pages") auto
  then show ?thesis
    using occurrence_count[of "\<lambda>s. s" example_pages] by blast
qed







lemma groups_of_content:
  assumes "groups_of md5 insts groups"
  shows "mset (map (\<lambda>kg. group_content (snd kg)) groups) =
         image_mset (content_of md5 (mset insts))
           (mset_set ((\<lambda>inst. createViolationSignature md5 (snd inst)) ` set_mset (mset insts)))"
proof -
  have d: "distinct (map fst groups)"
    and ks: "set (map fst groups) = set (map (\<lambda>inst. createViolationSignature md5 (snd inst)) insts)"
    and el: "\<And>k g. (k, g) \<in> set groups \<Longrightarrow> g_signature g = k \<and>
               occurrences g = map occurrence_of (instances_with md5 k insts) \<and>
               totalOccurrences g = int (length (instances_with md5 k insts))"
    using assms unfolding groups_of_def by auto
  have "map (\<lambda>kg. group_content (snd kg)) groups = map (\<lambda>kg. content_of md5 (mset insts) (fst kg)) groups"
  proof (rule map_cong[OF refl])
    fix kg assume "kg \<in> set groups"
    then have "(fst kg, snd kg) \<in> set groups" by simp
    from el[OF this] have "g_signature (snd kg) = fst kg"
      and "occurrences (snd kg) = map occurrence_of (instances_with md5 (fst kg) insts)"
      and "totalOccurrences (snd kg) = int (length (instances_with md5 (fst kg) insts))"
      by auto
    moreover have "length (instances_with md5 (fst kg) insts) =
        size (filter_mset (\<lambda>inst. createViolationSignature md5 (snd inst) = fst kg) (mset insts))"
      unfolding instances_with_def by (metis size_mset mset_filter)
    moreover have "mset (map occurrence_of (instances_with md5 (fst kg) insts)) =
        image_mset occurrence_of
          (filter_mset (\<lambda>inst. createViolationSignature md5 (snd inst) = fst kg) (mset insts))"
      unfolding instances_with_def by simp
    ultimately show "group_content (snd kg) = content_of md5 (mset insts) (fst kg)"
      by (simp add: group_content_def content_of_def)
  qed
  then have "mset (map (\<lambda>kg. group_content (snd kg)) groups) =
             mset (map (content_of md5 (mset insts)) (map fst groups))"
    by (simp only: map_map comp_def)
  then have "mset (map (\<lambda>kg. group_content (snd kg)) groups) =
             image_mset (content_of md5 (mset insts)) (mset (map fst groups))"
    by (simp only: mset_map)
  also have "mset (map fst groups) = mset_set (set (map fst groups))"
    using mset_set_set[OF d] by (rule sym)
  finally show ?thesis using ks by simp
qed

lemma mset_all_instances:
  "mset (all_instances m) = (\<Sum>entry \<in># mset m. mset (map (Pair (fst entry)) (snd entry)))"
proof -
  have "mset (all_instances m) = sum_list (map (\<lambda>entry. mset (map (Pair (fst entry)) (snd entry))) m)"
    by (induction m) (auto simp: all_instances_def)
  also have "\<dots> = sum_mset (mset (map (\<lambda>entry. mset (map (Pair (fst entry)) (snd entry))) m))"
    by (simp only: sum_mset_sum_list)
  finally show ?thesis by simp
qed

text \<open>
  C3, as stated, fails: the representative fields of a group come from the first instance
  the loops meet, its occurrences are listed in the order they are met, and the final sort
  orders by impact and count only. The two example pages read in the other order give the
  group another \<^verbatim>\<open>exampleHtml\<close>.
\<close>

theorem iteration_order_counterexample:
  "mset example_pages = mset (rev example_pages) \<and>
   map exampleHtml (groupViolations (\<lambda>s. s) example_pages) \<noteq>
   map exampleHtml (groupViolations (\<lambda>s. s) (rev example_pages))"
  by code_simp

text \<open>The same holds whatever the hash function is.\<close>

lemma iteration_order_any_hash:
  "map exampleHtml (groupViolations md5 example_pages) \<noteq>
   map exampleHtml (groupViolations md5 (rev example_pages))"
  by code_simp

text \<open>
  Two maps with the same entries in different iteration orders give the same signatures,
  each with the same \<^verbatim>\<open>totalOccurrences\<close> and the same occurrences as a multiset.
\<close>

lemma content_up_to_order:
  assumes "mset m1 = mset m2"
  shows "image_mset group_content (mset (groupViolations md5 m1)) =
         image_mset group_content (mset (groupViolations md5 m2))"
proof -
  have c: "image_mset group_content (mset (groupViolations md5 m)) =
           image_mset (content_of md5 (mset (all_instances m)))
             (mset_set ((\<lambda>inst. createViolationSignature md5 (snd inst)) ` set_mset (mset (all_instances m))))"
    for m
  proof -
    have "image_mset group_content (mset (groupViolations md5 m)) =
          mset (map (\<lambda>kg. group_content (snd kg)) (add_all md5 (all_instances m) []))"
      by (simp add: groupViolations_def mset_sort_by pages_loop_add_all multiset.map_comp comp_def)
    then show ?thesis using groups_of_content[OF groups_of_add_all] by simp
  qed
  have "mset (all_instances m1) = mset (all_instances m2)"
    using assms by (simp add: mset_all_instances)
  then show ?thesis by (simp only: c)
qed

text \<open>The order of first appearance.\<close>

lemma set_first_seen [simp]: "set (first_seen xs) = set xs"
  by (induction xs) auto

lemma distinct_first_seen: "distinct (first_seen xs)"
  by (induction xs) (auto simp: distinct_removeAll)

lemma first_seen_snoc:
  "first_seen (xs @ [k]) = (if k \<in> set xs then first_seen xs else first_seen xs @ [k])"
  by (induction xs) auto

text \<open>The groups before the sort.\<close>

lemma spec_snoc_other:
  assumes "createViolationSignature md5 v \<noteq> k"
  shows "group_as_specified md5 (insts @ [(u, v)]) k = group_as_specified md5 insts k"
  using assms by (simp add: group_as_specified_def instances_with_snoc)

lemma spec_snoc_same:
  assumes "instances_with md5 (createViolationSignature md5 v) insts \<noteq> []"
  shows "group_as_specified md5 (insts @ [(u, v)]) (createViolationSignature md5 v) =
         push_occurrence u v (group_as_specified md5 insts (createViolationSignature md5 v))"
  using assms
  by (simp add: group_as_specified_def instances_with_snoc push_occurrence_def Let_def
      occurrence_of_def)

lemma spec_snoc_new:
  assumes "instances_with md5 (createViolationSignature md5 v) insts = []"
  shows "group_as_specified md5 (insts @ [(u, v)]) (createViolationSignature md5 v) =
         push_occurrence u v (new_group (createViolationSignature md5 v) v)"
  using assms
  by (simp add: group_as_specified_def instances_with_snoc push_occurrence_def Let_def
      occurrence_of_def new_group_def)

lemma add_violation_specified:
  "add_violation md5 u
           (map (\<lambda>k. (k, group_as_specified md5 insts k)) (first_seen (map (\<lambda>inst. createViolationSignature md5 (snd inst)) insts))) v =
         map (\<lambda>k. (k, group_as_specified md5 (insts @ [(u, v)]) k))
           (first_seen (map (\<lambda>inst. createViolationSignature md5 (snd inst)) (insts @ [(u, v)])))"
proof -
  let ?sg = "\<lambda>inst. createViolationSignature md5 (snd inst)"
  let ?k0 = "createViolationSignature md5 v"
  let ?ks = "first_seen (map ?sg insts)"
  let ?G = "map (\<lambda>k. (k, group_as_specified md5 insts k)) ?ks"
  let ?upd = "\<lambda>(k, g). if k = ?k0 then (k, push_occurrence u v g) else (k, g)"
  have fs: "first_seen (map ?sg (insts @ [(u, v)])) =
            (if ?k0 \<in> set (map ?sg insts) then ?ks else ?ks @ [?k0])"
    using first_seen_snoc[of "map ?sg insts" ?k0] by simp
  have keys: "map fst ?G = ?ks" by (simp add: comp_def)
  have none: "(map_of ?G ?k0 = None) = (?k0 \<notin> set (map ?sg insts))"
    by (simp add: map_of_eq_None_iff image_image)
  show ?thesis
  proof (cases "?k0 \<in> set (map ?sg insts)")
    case True
    then have ne: "instances_with md5 ?k0 insts \<noteq> []"
      by (rule instances_with_nonempty)
    have "add_violation md5 u ?G v = map ?upd ?G"
      using True none by (simp add: add_violation_def Let_def)
    also have "\<dots> = map (\<lambda>k. (k, group_as_specified md5 (insts @ [(u, v)]) k)) ?ks"
      by (simp add: spec_snoc_other spec_snoc_same[OF ne])
    finally show ?thesis using True fs by simp
  next
    case False
    then have e: "instances_with md5 ?k0 insts = []"
      by (rule instances_with_empty)
    have nk: "?k0 \<notin> set (map fst ?G)" using False by (simp add: keys)
    have "add_violation md5 u ?G v = map ?upd (?G @ [(?k0, new_group ?k0 v)])"
      using False none by (simp add: add_violation_def Let_def)
    also have "\<dots> = ?G @ [(?k0, push_occurrence u v (new_group ?k0 v))]"
      using update_absent[OF nk, of "push_occurrence u v"] by simp
    also have "\<dots> = map (\<lambda>k. (k, group_as_specified md5 (insts @ [(u, v)]) k)) (?ks @ [?k0])"
    proof -
      have "group_as_specified md5 (insts @ [(u, v)]) k = group_as_specified md5 insts k"
        if "k \<in> set ?ks" for k
      proof (rule spec_snoc_other)
        show "?k0 \<noteq> k" using that False by auto
      qed
      then have "map (\<lambda>k. (k, group_as_specified md5 (insts @ [(u, v)]) k)) ?ks = ?G"
        by (intro map_cong) simp_all
      then show ?thesis by (simp add: spec_snoc_new[OF e])
    qed
    finally show ?thesis using False fs by simp
  qed
qed

lemma add_all_specified:
  "add_all md5 insts [] =
     map (\<lambda>k. (k, group_as_specified md5 insts k))
       (first_seen (map (\<lambda>inst. createViolationSignature md5 (snd inst)) insts))"
proof (induction insts rule: rev_induct)
  case Nil
  then show ?case by simp
next
  case (snoc x xs)
  have "add_all md5 (xs @ [x]) [] = add_violation md5 (fst x) (add_all md5 xs []) (snd x)"
    by (simp add: add_all_append)
  then show ?case
    using add_violation_specified[of md5 "fst x" xs "snd x"] by (simp add: snoc.IH)
qed

lemma groups_in_order_loop: "groups_in_order md5 m = map snd (pages_loop md5 m [])"
  by (simp add: pages_loop_add_all add_all_specified groups_in_order_def comp_def Let_def)

lemma groupViolations_sorted_groups:
  "groupViolations md5 m = sort_by compare_groups (groups_in_order md5 m)"
  by (simp add: groupViolations_def pages_loop_add_all add_all_specified groups_in_order_def
      comp_def Let_def)

text \<open>The comparator on groups with an impact of the table.\<close>

lemma known_impact_specified: "g \<in> set (groups_in_order md5 m) \<Longrightarrow> known_impact g"
proof -
  have "impactOrder (impact_or_unknown v) = Some (int (impact_rank (impact_or_unknown v)))" for v
  proof (cases "impact v")
    case None
    then show ?thesis by (simp add: impact_or_unknown_def impactOrder_def impact_rank_def)
  next
    case (Some i)
    then show ?thesis
      by (cases i) (simp_all add: impact_or_unknown_def impactOrder_def impact_rank_def)
  qed
  moreover assume "g \<in> set (groups_in_order md5 m)"
  ultimately show ?thesis
    by (auto simp: groups_in_order_def group_as_specified_def known_impact_def Let_def)
qed

lemma compare_precedes:
  "known_impact a \<Longrightarrow> known_impact b \<Longrightarrow> (compare_groups a b \<le> 0) = precedes a b"
  by (auto simp: known_impact_def compare_groups_def precedes_def Let_def)

lemma precedes_trans: "precedes a b \<Longrightarrow> precedes b c \<Longrightarrow> precedes a c"
  by (auto simp: precedes_def)

lemma precedes_total: "\<not> precedes a b \<Longrightarrow> precedes b a"
  by (auto simp: precedes_def)

lemma ties_precedes: "ties g a \<Longrightarrow> ties g b \<Longrightarrow> precedes a b"
  by (auto simp: ties_def precedes_def)

text \<open>The sort: it orders, and it keeps ties in place.\<close>

lemma set_insert_by: "set (insert_by cmp x ys) = insert x (set ys)"
  by (induction ys) auto

lemma set_sort_by: "set (sort_by cmp xs) = set xs"
  by (induction xs) (auto simp: sort_by_def set_insert_by)

lemma sorted_insert_by:
  assumes "known_impact x" "\<forall>y \<in> set ys. known_impact y" "sorted_wrt precedes ys"
  shows "sorted_wrt precedes (insert_by compare_groups x ys)"
  using assms(2,3)
proof (induction ys)
  case Nil
  then show ?case by simp
next
  case (Cons y ys)
  have ky: "known_impact y" using Cons.prems(1) by simp
  show ?case
  proof (cases "compare_groups x y \<le> 0")
    case True
    then have xy: "precedes x y" using compare_precedes[OF assms(1) ky] by simp
    have "\<forall>z \<in> set ys. precedes x z"
      using Cons.prems(2) xy precedes_trans by auto
    then show ?thesis using True xy Cons.prems(2) by simp
  next
    case False
    then have yx: "precedes y x"
      using compare_precedes[OF assms(1) ky] precedes_total by simp
    have "sorted_wrt precedes (insert_by compare_groups x ys)"
      using Cons by simp
    then show ?thesis using False yx Cons.prems(2) by (simp add: set_insert_by)
  qed
qed

lemma sorted_sort_by:
  "\<forall>y \<in> set xs. known_impact y \<Longrightarrow> sorted_wrt precedes (sort_by compare_groups xs)"
proof (induction xs)
  case Nil
  then show ?case by (simp add: sort_by_def)
next
  case (Cons x xs)
  have "sorted_wrt precedes (insert_by compare_groups x (sort_by compare_groups xs))"
    using Cons by (intro sorted_insert_by) (simp_all add: set_sort_by)
  then show ?case by (simp add: sort_by_def)
qed

lemma filter_insert_by:
  assumes "known_impact x" "\<forall>y \<in> set ys. known_impact y"
  shows "filter (ties g) (insert_by compare_groups x ys) = filter (ties g) (x # ys)"
  using assms(2)
proof (induction ys)
  case Nil
  then show ?case by simp
next
  case (Cons y ys)
  have ky: "known_impact y" using Cons.prems by simp
  show ?case
  proof (cases "compare_groups x y \<le> 0")
    case True
    then show ?thesis by simp
  next
    case False
    then have "\<not> precedes x y" using compare_precedes[OF assms(1) ky] by simp
    then have "\<not> (ties g x \<and> ties g y)" using ties_precedes by blast
    moreover have "filter (ties g) (insert_by compare_groups x ys) = filter (ties g) (x # ys)"
      using Cons by simp
    ultimately show ?thesis using False by auto
  qed
qed

lemma filter_sort_by:
  "\<forall>y \<in> set xs. known_impact y \<Longrightarrow>
   filter (ties g) (sort_by compare_groups xs) = filter (ties g) xs"
proof (induction xs)
  case Nil
  then show ?case by (simp add: sort_by_def)
next
  case (Cons x xs)
  have "filter (ties g) (insert_by compare_groups x (sort_by compare_groups xs)) =
        filter (ties g) (x # sort_by compare_groups xs)"
    using Cons.prems by (intro filter_insert_by) (simp_all add: set_sort_by)
  then show ?case using Cons by (simp add: sort_by_def)
qed

text \<open>
  C3, amended. groupViolations returns the groups of \<open>groups_in_order\<close>, sorted: one group
  for each signature, with the representative fields (\<^verbatim>\<open>ruleId\<close>, \<^verbatim>\<open>impact\<close>,
  \<^verbatim>\<open>description\<close>, \<^verbatim>\<open>help\<close>, \<^verbatim>\<open>helpUrl\<close>, \<^verbatim>\<open>wcagTags\<close>, \<^verbatim>\<open>exampleHtml\<close>,
  \<^verbatim>\<open>exampleSelector\<close>) of the first instance met with that signature, the occurrences in
  the order met and their number as \<^verbatim>\<open>totalOccurrences\<close>. The array is sorted by impact,
  critical first, then by \<^verbatim>\<open>totalOccurrences\<close>, the larger first, and groups that tie on
  both keep the order in which their signatures are first met. Two maps with the same
  entries in different iteration orders give the same signatures, each with the same
  \<^verbatim>\<open>totalOccurrences\<close> and the same occurrences as a multiset.
\<close>

theorem grouping_up_to_order:
  assumes "mset m1 = mset m2"
  shows "image_mset group_content (mset (groupViolations md5 m1)) =
         image_mset group_content (mset (groupViolations md5 m2)) \<and>
         mset (groupViolations md5 m1) = mset (groups_in_order md5 m1) \<and>
         sorted_wrt precedes (groupViolations md5 m1) \<and>
         (\<forall>g. filter (ties g) (groupViolations md5 m1) = filter (ties g) (groups_in_order md5 m1))"
proof -
  have k: "\<forall>y \<in> set (groups_in_order md5 m1). known_impact y"
    using known_impact_specified by blast
  have 1: "image_mset group_content (mset (groupViolations md5 m1)) =
         image_mset group_content (mset (groupViolations md5 m2))"
    by (rule content_up_to_order[OF assms])
  have 2: "mset (groupViolations md5 m1) = mset (groups_in_order md5 m1)"
    by (simp add: groupViolations_sorted_groups mset_sort_by)
  have 3: "sorted_wrt precedes (groupViolations md5 m1)"
    unfolding groupViolations_sorted_groups by (rule sorted_sort_by[OF k])
  have 4: "\<forall>g. filter (ties g) (groupViolations md5 m1) = filter (ties g) (groups_in_order md5 m1)"
    unfolding groupViolations_sorted_groups using filter_sort_by[OF k] by blast
  show ?thesis by (intro conjI) (rule 1, rule 2, rule 3, rule 4)
qed

theorem grouping_up_to_order_witness:
  "mset mixed_pages = mset (rev mixed_pages) \<and>
   image_mset group_content (mset (groupViolations (\<lambda>s. s) mixed_pages)) =
   image_mset group_content (mset (groupViolations (\<lambda>s. s) (rev mixed_pages))) \<and>
   mset (groupViolations (\<lambda>s. s) mixed_pages) = mset (groups_in_order (\<lambda>s. s) mixed_pages) \<and>
   sorted_wrt precedes (groupViolations (\<lambda>s. s) mixed_pages) \<and>
   (\<forall>g. filter (ties g) (groupViolations (\<lambda>s. s) mixed_pages) =
        filter (ties g) (groups_in_order (\<lambda>s. s) mixed_pages)) \<and>
   map totalOccurrences (groups_in_order (\<lambda>s. s) mixed_pages) = [1, 2] \<and>
   map totalOccurrences (groupViolations (\<lambda>s. s) mixed_pages) = [2, 1]"
proof -
  have h: "mset mixed_pages = mset (rev mixed_pages)" by simp
  have "map totalOccurrences (map snd (pages_loop (\<lambda>s. s) mixed_pages [])) = [1, 2]"
    by code_simp
  then have a: "map totalOccurrences (groups_in_order (\<lambda>s. s) mixed_pages) = [1, 2]"
    by (simp only: groups_in_order_loop)
  have b: "map totalOccurrences (groupViolations (\<lambda>s. s) mixed_pages) = [2, 1]"
    by code_simp
  note t = grouping_up_to_order[OF h, of "\<lambda>s. s"]
  show ?thesis
    by (intro conjI) (rule h, rule conjunct1[OF t], rule conjunct1[OF conjunct2[OF t]],
        rule conjunct1[OF conjunct2[OF conjunct2[OF t]]],
        rule conjunct2[OF conjunct2[OF conjunct2[OF t]]], rule a, rule b)
qed

text \<open>
  C5 fails on the code by a slip: the pattern \<^verbatim>\<open>/:\d+/g\<close> that is to remove positional
  qualifiers matches a colon followed by digits, and so leaves \<^verbatim>\<open>:nth-of-type(2)\<close>, the
  qualifier getCSSPath writes, in place.
\<close>

theorem nth_of_type_kept:
  "selectorPattern ''nav#nav > ul > li:nth-of-type(2) > a'' = ''ul > li:nth-of-type(2) > a''"
  by code_simp

section \<open>Properties of reconciliation\<close>

lemma labels_accessibility: "''accessibility'' \<in> set (generateLabels g)"
  by (simp add: generateLabels_def)

lemma existing0: "getExistingA11yIssues earlier_tracker = [earlier_issue]"
  by (simp add: getExistingA11yIssues_def earlier_tracker_def earlier_issue_def)

lemma match0: "findMatchingIssue image_alt_group [earlier_issue] = Some earlier_issue"
  by code_simp

lemma sig0: "search rx_signature (i_body earlier_issue) = Some [''0cc175b9c0f1b6a831c399e269772661'']"
  by code_simp

lemma first_run_results: "map res_action (snd first_run) = [Updated]"
  by (simp add: first_run_def syncIssues_def existing0 match0 updateIssue_def Let_def
      del: findMatchingIssue.simps)

lemma first_run_states: "map i_state (issues (fst first_run)) = [IssueClosed]"
proof -
  have n: "g_signature image_alt_group = ''92eb5ffee6ae2fec3ad71c777531578f''"
    by (simp add: image_alt_group_def)
  have i: "issues earlier_tracker = [earlier_issue]"
    by (simp add: earlier_tracker_def)
  show ?thesis
    by (simp add: first_run_def syncIssues_def existing0 match0 sig0 n i updateIssue_def
        modify_issue_def Let_def del: findMatchingIssue.simps)
qed

lemma existing1: "getExistingA11yIssues (fst first_run) = []"
proof -
  have "\<forall>i \<in> set (issues (fst first_run)). i_state i = IssueClosed"
    using first_run_states by (metis (no_types, lifting) in_set_conv_nth length_map length_Cons list.size(3) nth_map nth_Cons_0 less_Suc0)
  then show ?thesis by (auto simp: getExistingA11yIssues_def filter_empty_conv)
qed

text \<open>
  C2 fails on the code by a slip: closeResolvedIssues reads the signatures from the bodies
  listed before the updates. An issue that the first run matches by its title and
  updates still has, in that listing, the signature of an earlier scan, so the same
  run closes it; the second run, with the same groups, finds no open issue and creates one.
\<close>

theorem update_then_close:
  "map res_action (snd first_run) = [Updated] \<and> open_issue_count (fst first_run) = 0 \<and>
   map res_action (snd second_run) = [Created] \<and> open_issue_count (fst second_run) = 1"
proof -
  have c: "open_issue_count t = length (filter (\<lambda>s. s = IssueOpen) (map i_state (issues t)))" for t
    by (simp add: open_issue_count_def filter_map comp_def)
  have 1: "map res_action (snd first_run) = [Updated]"
    by (rule first_run_results)
  have 2: "open_issue_count (fst first_run) = 0"
    by (simp add: c first_run_states)
  have 3: "map res_action (snd second_run) = [Created]"
    by (simp add: second_run_def syncIssues_def existing1 createIssue_def Let_def)
  have "map i_state (issues (fst second_run)) = IssueOpen # map i_state (issues (fst first_run))"
    by (simp add: second_run_def syncIssues_def existing1 createIssue_def Let_def)
  then have 4: "open_issue_count (fst second_run) = 1"
    by (simp add: c first_run_states)
  show ?thesis using 1 2 3 4 by simp
qed

lemma listed2: "getExistingA11yIssues two_issue_tracker = [issue_of_other, issue_of_group]"
  by (simp add: getExistingA11yIssues_def two_issue_tracker_def issue_of_other_def
      issue_of_group_def earlier_issue_def)

lemma match_group: "findMatchingIssue image_alt_group [issue_of_other, issue_of_group] = Some issue_of_other"
  by code_simp

lemma match_other: "findMatchingIssue other_image_group [issue_of_other, issue_of_group] = Some issue_of_other"
  by code_simp

lemma sig_other: "search rx_signature (i_body issue_of_other) = Some [''0cc175b9c0f1b6a831c399e269772661'']"
  by code_simp

lemma sig_group: "search rx_signature (i_body issue_of_group) = Some [''92eb5ffee6ae2fec3ad71c777531578f'']"
  by code_simp

lemma numbers2: "i_number issue_of_other = 2" "i_number issue_of_group = 1"
  by (simp_all add: issue_of_other_def issue_of_group_def earlier_issue_def)

lemma sigs2: "g_signature image_alt_group = ''92eb5ffee6ae2fec3ad71c777531578f''"
  "g_signature other_image_group = ''0cc175b9c0f1b6a831c399e269772661''"
  by (simp_all add: image_alt_group_def other_image_group_def)


lemma embeds2:
  "embeds_signature issue_of_group image_alt_group" "\<not> embeds_signature issue_of_other image_alt_group"
  "title_has_rule issue_of_other image_alt_group"
  by code_simp+

lemma shadow_sync:
  "shadow_run =
     (let (t1, r1) = updateIssue ''t1'' two_issue_tracker 2 image_alt_group;
          (t2, r2) = updateIssue ''t1'' t1 2 other_image_group
      in (t2, [r1, r2]))"
  by (simp add: shadow_run_def syncIssues_def listed2 match_group match_other sig_other sig_group
      sigs2 numbers2 Let_def case_prod_beta del: findMatchingIssue.simps)

text \<open>
  C6 fails on the code. findMatchingIssue tests each listed issue for the signature token
  and, when the token is not there, at once for the \<^verbatim>\<open>ruleId\<close> in the title, so an issue
  that carries another signature but names the rule is taken before a later issue that
  carries the signature of the group. After a scan that filed issues 1 and 2 for two groups
  of the rule image-alt, the next scan of the same two groups matches both groups to issue
  2, the first listed: the group whose signature issue 1 carries is written into issue 2,
  then the other group overwrites it, and issue 1 is left as it was.
\<close>

theorem title_match_shadows_signature:
  "getExistingA11yIssues two_issue_tracker = [issue_of_other, issue_of_group] \<and>
   embeds_signature issue_of_group image_alt_group \<and>
   \<not> embeds_signature issue_of_other image_alt_group \<and>
   title_has_rule issue_of_other image_alt_group \<and>
   findMatchingIssue image_alt_group [issue_of_other, issue_of_group] = Some issue_of_other \<and>
   map (\<lambda>r. (res_signature r, res_action r, res_issueNumber r)) (snd shadow_run) =
     [(''92eb5ffee6ae2fec3ad71c777531578f'', Updated, 2),
      (''0cc175b9c0f1b6a831c399e269772661'', Updated, 2)] \<and>
   map (\<lambda>i. (i_number i, i_state i, length (i_comments i))) (issues (fst shadow_run)) =
     [(2, IssueOpen, 2), (1, IssueOpen, 0)] \<and>
   i_body (issues (fst shadow_run) ! 0) = generateGroupSummary other_image_group \<and>
   issues (fst shadow_run) ! 1 = issue_of_group"
proof -
  have r: "map (\<lambda>r. (res_signature r, res_action r, res_issueNumber r)) (snd shadow_run) =
     [(''92eb5ffee6ae2fec3ad71c777531578f'', Updated, 2),
      (''0cc175b9c0f1b6a831c399e269772661'', Updated, 2)]"
    by (simp add: shadow_sync updateIssue_def Let_def sigs2)
  have i: "issues two_issue_tracker = [issue_of_other, issue_of_group]"
    by (simp add: two_issue_tracker_def)
  have c: "i_comments issue_of_other = []" "i_comments issue_of_group = []"
    "i_state issue_of_other = IssueOpen" "i_state issue_of_group = IssueOpen"
    by (simp_all add: issue_of_other_def issue_of_group_def earlier_issue_def)
  have t: "map (\<lambda>i. (i_number i, i_state i, length (i_comments i))) (issues (fst shadow_run)) =
     [(2, IssueOpen, 2), (1, IssueOpen, 0)]"
    by (simp add: shadow_sync updateIssue_def modify_issue_def Let_def i numbers2 c)
  have b: "i_body (issues (fst shadow_run) ! 0) = generateGroupSummary other_image_group"
    by (simp add: shadow_sync updateIssue_def modify_issue_def Let_def i numbers2)
  have u: "issues (fst shadow_run) ! 1 = issue_of_group"
    by (simp add: shadow_sync updateIssue_def modify_issue_def Let_def i numbers2)
  show ?thesis
    by (intro conjI) (rule listed2, rule embeds2(1), rule embeds2(2), rule embeds2(3),
        rule match_group,
        rule r, rule t, rule b, rule u)
qed

section \<open>Signature stability: the normal form of a well-formed element\<close>

subsection \<open>startsWith\<close>

lemma startsWith_Nil [simp]: "startsWith s [] = True"
  by (simp add: startsWith_def)

lemma startsWith_Nil_Cons [simp]: "startsWith [] (c # p) = False"
  by (simp add: startsWith_def)

lemma startsWith_Cons_Cons [simp]: "startsWith (c # s) (d # p) = (c = d \<and> startsWith s p)"
  by (auto simp: startsWith_def)

lemma startsWith_iff: "startsWith s p \<longleftrightarrow> (\<exists>t. s = p @ t)"
proof
  assume "startsWith s p"
  then have "s = p @ drop (length p) s"
    by (metis append_take_drop_id startsWith_def)
  then show "\<exists>t. s = p @ t" ..
next
  assume "\<exists>t. s = p @ t"
  then show "startsWith s p" by (auto simp: startsWith_def)
qed

lemma startsWith_append_stop:
  assumes "c \<notin> set p"
  shows "startsWith (y @ c # rest) p \<longleftrightarrow> startsWith y p"
  using assms
proof (induction y arbitrary: p)
  case Nil
  then show ?case by (cases p) auto
next
  case (Cons a y)
  then show ?case by (cases p) auto
qed

subsection \<open>Greedy repetition followed by a stop character\<close>

lemma star_ends_nonempty: "star_ends p s \<noteq> []"
  by (cases s) auto

lemma hd_star_ends: "hd (star_ends p s) = dropWhile p s"
  by (induction s) (auto simp: star_ends_nonempty)

lemma star_ends_tl: "u \<in> set (tl (star_ends p t)) \<Longrightarrow> u \<noteq> [] \<and> p (hd u)"
proof (induction t)
  case Nil
  then show ?case by simp
next
  case (Cons c t)
  show ?case
  proof (cases "p c")
    case True
    then have "tl (star_ends p (c # t)) = tl (star_ends p t) @ [c # t]"
      by (simp add: star_ends_nonempty)
    then show ?thesis using Cons True by auto
  next
    case False
    then show ?thesis using Cons by simp
  qed
qed

lemma concat_map_hd:
  assumes "xs \<noteq> []" and "\<And>x. x \<in> set (tl xs) \<Longrightarrow> F x = []"
  shows "concat (map F xs) = F (hd xs)"
proof -
  obtain x rest where xs: "xs = x # rest" using assms(1) by (cases xs) auto
  have "concat (map F rest) = []" using assms(2) xs by (induction rest) auto
  then show ?thesis using xs by simp
qed

lemma fails_on_Lit: "\<not> p q \<Longrightarrow> fails_on (Lit (q # l)) p"
  by (auto simp: fails_on_def)

lemma fails_on_Seq: "fails_on a p \<Longrightarrow> fails_on (Seq a b) p"
  by (auto simp: fails_on_def)

lemma rx_match_star_seq:
  assumes "fails_on b p"
  shows "rx_match (Seq (Star p) b) t = rx_match b (dropWhile p t)"
proof -
  let ?F = "\<lambda>(ca, ra). map (\<lambda>(cb, rb). (ca @ cb, rb)) (rx_match b ra)"
  have "rx_match (Seq (Star p) b) t = concat (map ?F (map (Pair ([]::string list)) (star_ends p t)))"
    by simp
  also have "\<dots> = ?F (hd (map (Pair ([]::string list)) (star_ends p t)))"
  proof (rule concat_map_hd)
    show "map (Pair ([]::string list)) (star_ends p t) \<noteq> []" by (simp add: star_ends_nonempty)
  next
    fix x :: "string list \<times> string"
    assume "x \<in> set (tl (map (Pair ([]::string list)) (star_ends p t)))"
    then obtain u where u: "u \<in> set (tl (star_ends p t))" and x: "x = ([]::string list, u)"
      by (auto simp flip: map_tl)
    from star_ends_tl[OF u] obtain c u' where "u = c # u'" "p c" by (cases u) auto
    then have "rx_match b u = []" using assms by (simp add: fails_on_def)
    then show "?F x = []" using x by simp
  qed
  also have "\<dots> = rx_match b (dropWhile p t)"
    by (simp add: hd_map star_ends_nonempty hd_star_ends case_prod_beta)
  finally show ?thesis .
qed

lemma rx_match_grp_star_seq:
  assumes "fails_on b p"
  shows "rx_match (Seq (Grp (Star p)) b) t =
         map (\<lambda>(cb, rb). (takeWhile p t # cb, rb)) (rx_match b (dropWhile p t))"
proof -
  let ?G = "\<lambda>u. (take (length t - length u) t # [], u)"
  let ?F = "\<lambda>(ca, ra). map (\<lambda>(cb, rb). (ca @ cb, rb)) (rx_match b ra)"
  have "rx_match (Seq (Grp (Star p)) b) t = concat (map ?F (map ?G (star_ends p t)))"
    by (simp add: comp_def)
  also have "\<dots> = ?F (hd (map ?G (star_ends p t)))"
  proof (rule concat_map_hd)
    show "map ?G (star_ends p t) \<noteq> []" by (simp add: star_ends_nonempty)
  next
    fix x :: "string list \<times> string"
    assume "x \<in> set (tl (map ?G (star_ends p t)))"
    then obtain u where u: "u \<in> set (tl (star_ends p t))" and x: "x = ?G u"
      by (auto simp flip: map_tl)
    from star_ends_tl[OF u] obtain c u' where "u = c # u'" "p c" by (cases u) auto
    then have "rx_match b u = []" using assms by (simp add: fails_on_def)
    then show "?F x = []" using x by simp
  qed
  also have "\<dots> = map (\<lambda>(cb, rb). (takeWhile p t # cb, rb)) (rx_match b (dropWhile p t))"
  proof -
    have "take (length t - length (dropWhile p t)) t = takeWhile p t"
      by (metis append_eq_conv_conj length_append add_diff_cancel_right' takeWhile_dropWhile_id)
    then show ?thesis
      by (simp add: hd_map star_ends_nonempty hd_star_ends case_prod_beta)
  qed
  finally show ?thesis .
qed

lemma rx_match_plus_seq:
  assumes "fails_on b p"
  shows "rx_match (Seq (Plus p) b) t =
         (case t of [] \<Rightarrow> [] | c # u \<Rightarrow> if p c then rx_match b (dropWhile p u) else [])"
proof (cases t)
  case Nil
  then show ?thesis by simp
next
  case (Cons c u)
  show ?thesis
  proof (cases "p c")
    case True
    have "rx_match (Seq (Plus p) b) (c # u) = rx_match (Seq (Star p) b) u"
      using True by simp
    then show ?thesis using True Cons rx_match_star_seq[OF assms] by simp
  next
    case False
    then show ?thesis using Cons by simp
  qed
qed

subsection \<open>Quoted values\<close>

lemma dropWhile_not_dq: "dq \<notin> set v \<Longrightarrow> dropWhile not_dq (v @ dq # rest) = dq # rest"
  by (induction v) (auto simp: not_dq_def)

lemma takeWhile_not_dq: "dq \<notin> set v \<Longrightarrow> takeWhile not_dq (v @ dq # rest) = v"
  by (induction v) (auto simp: not_dq_def)

lemma fails_on_dq: "fails_on (Lit [dq]) not_dq"
  by (rule fails_on_Lit) (simp add: not_dq_def)

lemma lit_char_step: "rx_match (Seq (Lit [c]) b) (c # s) = rx_match b s"
  by (simp add: case_prod_beta)

lemma rx_quoted_hit:
  assumes "dq \<notin> set v"
  shows "rx_match rx_quoted (dq # v @ dq # rest) = [([], rest)]"
proof -
  have "rx_match rx_quoted (dq # v @ dq # rest) = rx_match (Lit [dq]) (dropWhile not_dq (v @ dq # rest))"
    unfolding rx_quoted_def by (simp only: lit_char_step rx_match_star_seq[OF fails_on_dq])
  then show ?thesis using assms by (simp add: dropWhile_not_dq)
qed

lemma rx_quoted_miss: "c \<noteq> dq \<Longrightarrow> rx_match rx_quoted (c # s) = []"
  by (simp add: rx_quoted_def)

lemma rx_quoted_Nil: "rx_match rx_quoted [] = []"
  by (simp add: rx_quoted_def)

lemma rx_quoted_grp_hit:
  assumes "dq \<notin> set v"
  shows "rx_match rx_quoted_grp (dq # v @ dq # rest) = [([v], rest)]"
proof -
  have "rx_match rx_quoted_grp (dq # v @ dq # rest) =
        map (\<lambda>(cb, rb). (takeWhile not_dq (v @ dq # rest) # cb, rb))
          (rx_match (Lit [dq]) (dropWhile not_dq (v @ dq # rest)))"
    unfolding rx_quoted_grp_def by (simp only: lit_char_step rx_match_grp_star_seq[OF fails_on_dq])
  then show ?thesis using assms by (simp add: dropWhile_not_dq takeWhile_not_dq)
qed

lemma rx_quoted_grp_miss: "c \<noteq> dq \<Longrightarrow> rx_match rx_quoted_grp (c # s) = []"
  by (simp add: rx_quoted_grp_def)

lemma rx_quoted_grp_Nil: "rx_match rx_quoted_grp [] = []"
  by (simp add: rx_quoted_grp_def)

subsection \<open>Scanning\<close>

lemma replace_all_Nil: "match_here r [] = None \<Longrightarrow> replace_all r f [] = []"
  by (subst replace_all.simps) simp

lemma replace_all_skip:
  "match_here r (c # s) = None \<Longrightarrow> replace_all r f (c # s) = c # replace_all r f s"
  by (subst replace_all.simps) simp

lemma replace_all_hit:
  "match_here r s = Some (m, caps, rest) \<Longrightarrow> length rest < length s \<Longrightarrow>
   replace_all r f s = f m caps @ replace_all r f rest"
  by (subst replace_all.simps) simp

lemma replace_all_pass:
  assumes "\<And>ys zs. u = ys @ zs \<Longrightarrow> zs \<noteq> [] \<Longrightarrow> match_here r (zs @ rest) = None"
  shows "replace_all r f (u @ rest) = u @ replace_all r f rest"
  using assms
proof (induction u)
  case Nil
  then show ?case by simp
next
  case (Cons c u)
  have "match_here r ((c # u) @ rest) = None"
    using Cons.prems[of "[]" "c # u"] by simp
  then have "replace_all r f ((c # u) @ rest) = c # replace_all r f (u @ rest)"
    by (simp add: replace_all_skip)
  moreover have "replace_all r f (u @ rest) = u @ replace_all r f rest"
  proof (rule Cons.IH)
    fix ys zs assume "u = ys @ zs" "zs \<noteq> []"
    then show "match_here r (zs @ rest) = None"
      using Cons.prems[of "c # ys" zs] by simp
  qed
  ultimately show ?case by simp
qed

lemma match_here_None: "rx_match r s = [] \<Longrightarrow> match_here r s = None"
  by (simp add: match_here_def)

lemma match_here_single:
  "rx_match r s = [(caps, rest)] \<Longrightarrow>
   match_here r s = Some (take (length s - length rest) s, caps, rest)"
  by (simp add: match_here_def)

text \<open>A pattern that begins with white space does not match at another character.\<close>

lemma space_anchored_miss: "\<not> p c \<Longrightarrow> rx_match (Seq (Cls p) r) (c # s) = []"
  by simp

lemma space_anchored_Nil: "rx_match (Seq (Cls p) r) [] = []"
  by simp

lemma space_anchored_step: "p c \<Longrightarrow> rx_match (Seq (Cls p) r) (c # s) = rx_match r s"
  by (simp add: case_prod_beta)

subsection \<open>Characters\<close>

lemma toLowerChar_cases: "toLowerChar c = c \<or> (is_upper_az c \<and> is_lower_az (toLowerChar c))"
  by (simp add: toLowerChar_def is_upper_az_def is_lower_az_def)

lemma lower_az_plain:
  "is_lower_az c \<Longrightarrow> \<not> is_space c \<and> c \<noteq> dq \<and> c \<noteq> CHR ''='' \<and> c \<noteq> CHR ''>'' \<and> is_word c"
  by (auto simp: is_lower_az_def is_space_def dq_def is_word_def)

lemma upper_az_plain:
  "is_upper_az c \<Longrightarrow> \<not> is_space c \<and> c \<noteq> dq \<and> c \<noteq> CHR ''='' \<and> c \<noteq> CHR ''>'' \<and> is_word c"
  by (auto simp: is_upper_az_def is_space_def dq_def is_word_def)

lemma lower_space [simp]: "is_space (toLowerChar c) = is_space c"
  using toLowerChar_cases[of c] lower_az_plain upper_az_plain by metis

lemma lower_dq [simp]: "(toLowerChar c = dq) = (c = dq)"
  using toLowerChar_cases[of c] lower_az_plain upper_az_plain by metis

lemma lower_eq [simp]: "(toLowerChar c = CHR ''='') = (c = CHR ''='')"
  using toLowerChar_cases[of c] lower_az_plain upper_az_plain by metis

lemma lower_gt [simp]: "(toLowerChar c = CHR ''>'') = (c = CHR ''>'')"
  using toLowerChar_cases[of c] lower_az_plain upper_az_plain by metis

lemma lower_word: "is_word c \<Longrightarrow> is_word (toLowerChar c)"
  using toLowerChar_cases[of c] lower_az_plain by metis

lemma lower_name_char [simp]: "name_char (toLowerChar c) = name_char c"
  by (simp add: name_char_def)

lemma dq_plain [simp]: "\<not> is_space dq" "dq \<noteq> CHR ''=''" "dq \<noteq> CHR ''>''" "dq \<noteq> CHR '' ''"
  by (simp_all add: dq_def is_space_def)

lemma space_space [simp]: "is_space (CHR '' '')"
  by (simp add: is_space_def)

lemma plain_not_space [simp]: "\<not> is_space (CHR ''='')" "\<not> is_space (CHR ''>'')" "\<not> is_space (CHR ''<'')"
  by (simp_all add: is_space_def)

lemma lower_fixed [simp]:
  "toLowerChar dq = dq" "toLowerChar (CHR ''='') = CHR ''=''" "toLowerChar (CHR ''>'') = CHR ''>''"
  "toLowerChar (CHR ''<'') = CHR ''<''" "toLowerChar (CHR '' '') = CHR '' ''"
  by (simp_all add: toLowerChar_def dq_def)

lemma replace_spaces: "replace_all rx_spaces (\<lambda>m caps. '' '') s = collapse s"
proof (induction s rule: collapse.induct)
  case 1
  have "match_here rx_spaces [] = None" by (simp add: match_here_def rx_spaces_def)
  then show ?case by (simp add: replace_all_Nil)
next
  case (2 c s)
  show ?case
  proof (cases "is_space c")
    case True
    have "rx_match rx_spaces (c # s) = map (Pair []) (star_ends is_space s)"
      using True by (simp add: rx_spaces_def)
    then have "match_here rx_spaces (c # s) =
        Some (take (length (c # s) - length (dropWhile is_space s)) (c # s), [], dropWhile is_space s)"
      using hd_star_ends[of is_space s] star_ends_nonempty[of is_space s]
      by (cases "star_ends is_space s") (auto simp: match_here_def)
    moreover have "length (dropWhile is_space s) < length (c # s)"
      by (simp add: le_imp_less_Suc length_dropWhile_le)
    ultimately have "replace_all rx_spaces (\<lambda>m caps. '' '') (c # s) =
        '' '' @ replace_all rx_spaces (\<lambda>m caps. '' '') (dropWhile is_space s)"
      by (rule replace_all_hit)
    then show ?thesis using True 2 by simp
  next
    case False
    then have "match_here rx_spaces (c # s) = None" by (simp add: match_here_def rx_spaces_def)
    then show ?thesis using False 2 by (simp add: replace_all_skip)
  qed
qed

lemma dropWhile_space_stop: "\<not> is_space c \<Longrightarrow> dropWhile is_space (a @ c # b) = dropWhile is_space a @ c # b"
  by (induction a) auto

lemma collapse_stop: "\<not> is_space c \<Longrightarrow> collapse (a @ c # b) = collapse a @ c # collapse b"
proof (induction a rule: collapse.induct)
  case 1
  then show ?case by simp
next
  case (2 x a)
  then show ?case by (simp add: dropWhile_space_stop)
qed

lemma collapse_plain: "\<forall>c \<in> set t. \<not> is_space c \<Longrightarrow> collapse t = t"
  by (induction t) auto

lemma name_no_space: "list_all name_char n \<Longrightarrow> \<forall>c \<in> set n. \<not> is_space c"
  by (simp add: list_all_iff name_char_def)

lemma collapse_attr:
  assumes "list_all name_char (fst a)"
  shows "collapse (render_attr a @ c # rest) = render_attr (fst a, collapse (snd a)) @ collapse (c # rest)"
proof -
  let ?n = "fst a" and ?v = "snd a"
  have ns: "\<forall>c \<in> set (?n @ ''=''). \<not> is_space c" using name_no_space[OF assms] by auto
  have "render_attr a @ c # rest = CHR '' '' # ((?n @ ''='') @ dq # (?v @ dq # c # rest))"
    by (simp add: render_attr_def)
  moreover have "dropWhile is_space ((?n @ ''='') @ dq # (?v @ dq # c # rest)) =
                 (?n @ ''='') @ dq # (?v @ dq # c # rest)"
    using ns by (cases ?n) auto
  moreover have "collapse ((?n @ ''='') @ dq # (?v @ dq # c # rest)) =
                 (?n @ ''='') @ dq # collapse ?v @ dq # collapse (c # rest)"
    using ns by (simp only: collapse_stop[OF dq_plain(1)] collapse_plain)
  ultimately show ?thesis by (simp add: render_attr_def)
qed

lemma collapse_attrs:
  assumes "list_all wf_attr as" "\<not> is_space c"
  shows "collapse (render_attrs as @ c # rest) =
         render_attrs (map (\<lambda>a. (fst a, collapse (snd a))) as) @ c # collapse rest"
  using assms(1)
proof (induction as)
  case Nil
  then show ?case using assms(2) by (simp add: render_attrs_def)
next
  case (Cons a as)
  have n: "list_all name_char (fst a)" using Cons.prems by (simp add: wf_attr_def)
  have "render_attrs (a # as) @ c # rest = render_attr a @ (render_attrs as @ c # rest)"
    by (simp add: render_attrs_def)
  moreover obtain c' r' where cr: "render_attrs as @ c # rest = c' # r'"
    by (cases "render_attrs as @ c # rest") auto
  ultimately have "collapse (render_attrs (a # as) @ c # rest) =
      render_attr (fst a, collapse (snd a)) @ collapse (render_attrs as @ c # rest)"
    using collapse_attr[OF n, of c' r'] by simp
  then show ?case using Cons by (simp add: render_attrs_def)
qed

lemma collapse_plain_prefix: "\<forall>c \<in> set t. \<not> is_space c \<Longrightarrow> collapse (t @ r) = t @ collapse r"
  by (induction t) auto

lemma collapse_Nil_iff [simp]: "collapse v = [] \<longleftrightarrow> v = []"
  by (cases v) auto

lemma last_dropWhile: "dropWhile p s \<noteq> [] \<Longrightarrow> last (dropWhile p s) = last s"
  by (induction s) (auto split: if_splits)

lemma collapse_last_eq:
  "v \<noteq> [] \<Longrightarrow> last (collapse v) = CHR ''='' \<Longrightarrow> last v = CHR ''=''"
proof (induction v rule: collapse.induct)
  case 1
  then show ?case by simp
next
  case (2 c s)
  show ?case
  proof (cases "is_space c")
    case True
    then have l: "last (CHR '' '' # collapse (dropWhile is_space s)) = CHR ''=''"
      using 2 by simp
    have ne: "dropWhile is_space s \<noteq> []"
    proof
      assume "dropWhile is_space s = []"
      then have "last (CHR '' '' # collapse (dropWhile is_space s)) = CHR '' ''" by simp
      then show False using l by simp
    qed
    then have ce: "collapse (dropWhile is_space s) \<noteq> []" by (simp only: collapse_Nil_iff) simp
    have "last (collapse (dropWhile is_space s)) = CHR ''=''"
      using l last_ConsR[OF ce] by metis
    then have "last (dropWhile is_space s) = CHR ''=''" using 2 True ne by simp
    then have "last s = CHR ''=''" using ne last_dropWhile by metis
    moreover have "s \<noteq> []" using ne by auto
    ultimately show ?thesis by simp
  next
    case False
    then show ?thesis using 2 by (cases s) (auto split: if_splits)
  qed
qed

lemma set_collapse: "set (collapse v) \<subseteq> insert (CHR '' '') (set v)"
proof (induction v rule: collapse.induct)
  case 1
  then show ?case by simp
next
  case (2 c s)
  have "set (dropWhile is_space s) \<subseteq> set s" by (rule set_dropWhileD[THEN subsetI])
  then show ?case using 2 by auto
qed

lemma lower_keeps_dq: "dq \<in> set (toLowerCase xs) \<longleftrightarrow> dq \<in> set xs"
proof (induction xs)
  case Nil
  then show ?case by (simp add: toLowerCase_def)
next
  case (Cons x xs)
  have "(dq = toLowerChar x) = (dq = x)" using lower_dq[of x] by metis
  then show ?case using Cons by (simp add: toLowerCase_def)
qed

lemma wf_value_norm: "wf_value v \<Longrightarrow> wf_value (toLowerCase (collapse v))"
proof -
  assume w: "wf_value v"
  have "dq \<notin> set (collapse v)"
    using w set_collapse[of v] by (auto simp: wf_value_def)
  then have 1: "dq \<notin> set (toLowerCase (collapse v))"
    by (simp add: lower_keeps_dq)
  have 2: "toLowerCase (collapse v) = [] \<or> last (toLowerCase (collapse v)) \<noteq> CHR ''=''"
  proof (cases "v = []")
    case True
    then show ?thesis by (simp add: toLowerCase_def)
  next
    case False
    then have "last v \<noteq> CHR ''=''" using w by (simp add: wf_value_def)
    then have "last (collapse v) \<noteq> CHR ''=''" using collapse_last_eq[OF False] by blast
    then show ?thesis using False by (simp add: toLowerCase_def last_map)
  qed
  show ?thesis using 1 2 by (simp add: wf_value_def)
qed

lemma lower_name: "list_all name_char n \<Longrightarrow> list_all name_char (toLowerCase n)"
  by (simp add: toLowerCase_def list_all_iff)

lemma wf_attr_s0: "wf_attr a \<Longrightarrow> wf_attr (s0 a)"
  by (simp add: wf_attr_def s0_def wf_value_norm lower_name)

lemma lower_render_attrs:
  "toLowerCase (render_attrs as) =
     render_attrs (map (\<lambda>a. (toLowerCase (fst a), toLowerCase (snd a))) as)"
  by (induction as) (simp_all add: render_attrs_def render_attr_def toLowerCase_def)

lemma trim_tag:
  assumes "\<not> is_space c0" "\<not> is_space c1"
  shows "trim (c0 # p @ c1 # x) = c0 # p @ c1 # rev (dropWhile is_space (rev x))"
proof -
  have "rev (c0 # p @ c1 # x) = rev x @ c1 # (rev p @ [c0])" by simp
  then have "dropWhile is_space (rev (c0 # p @ c1 # x)) =
             dropWhile is_space (rev x) @ c1 # (rev p @ [c0])"
    using dropWhile_space_stop[OF assms(2)] by metis
  then show ?thesis using assms(1) by (simp add: trim_def)
qed

lemma stage0:
  assumes "wf_element e"
  shows "norm0 (render e) =
         ''<'' @ toLowerCase (el_tag e) @ render_attrs (map s0 (el_attrs e)) @ ''>'' @
         inner0 (el_inner e)"
proof -
  have t: "\<forall>c \<in> set (CHR ''<'' # el_tag e). \<not> is_space c"
    using assms name_no_space by (auto simp: wf_element_def)
  have a: "list_all wf_attr (el_attrs e)" using assms by (simp add: wf_element_def)
  let ?as = "map (\<lambda>a. (fst a, collapse (snd a))) (el_attrs e)"
  have "collapse (render e) = (CHR ''<'' # el_tag e) @ collapse (render_attrs (el_attrs e) @ CHR ''>'' # el_inner e)"
    using collapse_plain_prefix[OF t] by (simp add: render_def)
  also have "\<dots> = CHR ''<'' # (el_tag e @ render_attrs ?as) @ CHR ''>'' # collapse (el_inner e)"
    using collapse_attrs[OF a plain_not_space(2)] by simp
  finally have c: "collapse (render e) =
      CHR ''<'' # (el_tag e @ render_attrs ?as) @ CHR ''>'' # collapse (el_inner e)" .
  have "trim (collapse (render e)) =
      CHR ''<'' # (el_tag e @ render_attrs ?as) @ CHR ''>'' #
        rev (dropWhile is_space (rev (collapse (el_inner e))))"
    unfolding c by (rule trim_tag) simp_all
  then have "norm0 (render e) =
      toLowerCase (CHR ''<'' # (el_tag e @ render_attrs ?as) @ CHR ''>'' #
        rev (dropWhile is_space (rev (collapse (el_inner e)))))"
    by (simp add: norm0_def replace_spaces)
  also have "\<dots> = CHR ''<'' # toLowerCase (el_tag e) @ toLowerCase (render_attrs ?as) @ CHR ''>'' #
        inner0 (el_inner e)"
    by (simp add: toLowerCase_def inner0_def)
  also have "toLowerCase (render_attrs ?as) = render_attrs (map s0 (el_attrs e))"
    by (simp add: lower_render_attrs s0_def[abs_def] comp_def)
  finally show ?thesis by simp
qed

lemma seq_lit: "rx_match (Seq (Lit l) q) s = (if startsWith s l then rx_match q (drop (length l) s) else [])"
  by (simp add: case_prod_beta)

lemma lit_then_quoted:
  assumes "dq \<notin> set l" "dq \<notin> set y" "\<And>c s. c \<noteq> dq \<Longrightarrow> rx_match q (c # s) = []"
  shows "rx_match (Seq (Lit l) q) (y @ dq # rest) = (if y = l then rx_match q (dq # rest) else [])"
proof (cases "startsWith y l")
  case True
  then obtain y' where y: "y = l @ y'" by (auto simp: startsWith_iff)
  have s: "startsWith (y @ dq # rest) l" using True startsWith_append_stop[OF assms(1)] by simp
  show ?thesis
  proof (cases y')
    case Nil
    then show ?thesis using y s by (simp add: seq_lit del: rx_match.simps)
  next
    case (Cons c y'')
    then have "c \<noteq> dq" using assms(2) y by auto
    then show ?thesis using y s Cons assms(3) by (simp add: seq_lit del: rx_match.simps)
  qed
next
  case False
  then have "\<not> startsWith (y @ dq # rest) l" using startsWith_append_stop[OF assms(1)] by simp
  moreover have "y \<noteq> l" using False by (auto simp: startsWith_iff)
  ultimately show ?thesis by (simp add: seq_lit del: rx_match.simps)
qed

lemma quote_bound_lit:
  assumes "dq \<notin> set l" "l \<noteq> []" "last l = CHR ''=''" "\<And>c s. c \<noteq> dq \<Longrightarrow> rx_match q (c # s) = []"
  shows "quote_bound (Seq (Lit l) q)"
  unfolding quote_bound_def using lit_then_quoted[OF assms(1) _ assms(4)] assms(2,3) by auto

lemma quote_bound_anchored: "quote_bound r \<Longrightarrow> quote_bound (Seq (Cls is_space) r)"
  unfolding quote_bound_def
proof (intro allI impI)
  fix y rest
  assume q: "\<forall>y rest. dq \<notin> set y \<longrightarrow> (y = [] \<or> last y \<noteq> CHR ''='') \<longrightarrow> rx_match r (y @ dq # rest) = []"
    and d: "dq \<notin> set y" and l: "y = [] \<or> last y \<noteq> CHR ''=''"
  show "rx_match (Seq (Cls is_space) r) (y @ dq # rest) = []"
  proof (cases y)
    case Nil
    then show ?thesis by simp
  next
    case (Cons c y')
    have "y' = [] \<or> last y' \<noteq> CHR ''=''" using l Cons by (auto split: if_splits)
    moreover have "dq \<notin> set y'" using d Cons by simp
    ultimately have "rx_match r (y' @ dq # rest) = []" using q by blast
    then show ?thesis using Cons by simp
  qed
qed

lemma value_pass:
  assumes "quote_bound r" "wf_value w"
  shows "replace_all r f (w @ dq # rest) = w @ dq # replace_all r f rest"
proof -
  have "replace_all r f ((w @ [dq]) @ rest) = (w @ [dq]) @ replace_all r f rest"
  proof (rule replace_all_pass)
    fix ys zs assume s: "w @ [dq] = ys @ zs" and ne: "zs \<noteq> []"
    then obtain y where zs: "zs = y @ [dq]" and w: "w = ys @ y"
      by (metis append_butlast_last_id butlast_append butlast_snoc last_appendR last_snoc)
    have "dq \<notin> set y" using assms(2) w by (simp add: wf_value_def)
    moreover have "y = [] \<or> last y \<noteq> CHR ''=''" using assms(2) w by (auto simp: wf_value_def)
    ultimately have "rx_match r (y @ dq # rest) = []" using assms(1) unfolding quote_bound_def by blast
    then show "match_here r (zs @ rest) = None" using zs by (simp add: match_here_None)
  qed
  then show ?thesis by simp
qed

lemma plain_pass:
  assumes "\<forall>c \<in> set u. \<not> is_space c"
  shows "replace_all (Seq (Cls is_space) r) f (u @ rest) = u @ replace_all (Seq (Cls is_space) r) f rest"
proof (rule replace_all_pass)
  fix ys zs assume "u = ys @ zs" "zs \<noteq> []"
  then obtain c zs' where "zs = c # zs'" "\<not> is_space c" using assms by (cases zs) auto
  then show "match_here (Seq (Cls is_space) r) (zs @ rest) = None"
    by (simp add: match_here_None)
qed

subsection \<open>One attribute under a pattern anchored at white space\<close>

lemma space_step: "rx_match (Seq (Cls is_space) r) (CHR '' '' # s) = rx_match r s"
  by (simp add: case_prod_beta)

lemma anchored_chunk:
  assumes qb: "quote_bound r'"
    and hm: "\<And>v rest. dq \<notin> set v \<Longrightarrow>
              rx_match r' ((fst a @ ''='') @ dq # v @ dq # rest) = (if P then [(cap v, rest)] else [])"
    and wf: "wf_attr a"
  shows "replace_all (Seq (Cls is_space) r') f (render_attr a @ rest) =
         (if P then f (render_attr a) (cap (snd a)) else render_attr a) @
         replace_all (Seq (Cls is_space) r') f rest"
proof -
  let ?r = "Seq (Cls is_space) r'"
  let ?n = "fst a" and ?v = "snd a"
  have v: "wf_value ?v" and dv: "dq \<notin> set ?v" using wf by (simp_all add: wf_attr_def wf_value_def)
  have ns: "\<forall>c \<in> set (?n @ ''='' @ [dq]). \<not> is_space c"
    using wf name_no_space by (auto simp: wf_attr_def)
  have s: "render_attr a @ rest = CHR '' '' # ((?n @ ''='') @ dq # ?v @ dq # rest)"
    by (simp add: render_attr_def)
  have m: "rx_match ?r (render_attr a @ rest) = (if P then [(cap ?v, rest)] else [])"
    unfolding s using hm[OF dv] by (simp only: space_step)
  show ?thesis
  proof (cases P)
    case True
    have "match_here ?r (render_attr a @ rest) =
          Some (take (length (render_attr a @ rest) - length rest) (render_attr a @ rest), cap ?v, rest)"
      using m True by (simp add: match_here_def)
    then have "match_here ?r (render_attr a @ rest) = Some (render_attr a, cap ?v, rest)" by simp
    moreover have "length rest < length (render_attr a @ rest)" by (simp add: render_attr_def)
    ultimately show ?thesis using True by (simp add: replace_all_hit)
  next
    case False
    have "match_here ?r (CHR '' '' # ((?n @ ''='') @ dq # ?v @ dq # rest)) = None"
      using m False unfolding s by (simp add: match_here_None)
    then have "replace_all ?r f (render_attr a @ rest) =
        CHR '' '' # replace_all ?r f ((?n @ ''='' @ [dq]) @ (?v @ dq # rest))"
      unfolding s by (simp add: replace_all_skip)
    also have "\<dots> = CHR '' '' # (?n @ ''='' @ [dq]) @ replace_all ?r f (?v @ dq # rest)"
      by (simp only: plain_pass[OF ns])
    also have "\<dots> = CHR '' '' # (?n @ ''='' @ [dq]) @ ?v @ dq # replace_all ?r f rest"
      by (simp only: value_pass[OF quote_bound_anchored[OF qb] v])
    finally show ?thesis using False by (simp add: render_attr_def)
  qed
qed

lemma stage_attrs:
  assumes "\<And>a rest. wf_attr a \<Longrightarrow>
             replace_all r f (render_attr a @ rest) = render_attrs (st a) @ replace_all r f rest"
    and "list_all wf_attr as"
  shows "replace_all r f (render_attrs as @ rest) =
         render_attrs (concat (map st as)) @ replace_all r f rest"
  using assms(2)
proof (induction as)
  case Nil
  then show ?case by (simp add: render_attrs_def)
next
  case (Cons a as)
  have "replace_all r f (render_attrs (a # as) @ rest) =
        replace_all r f (render_attr a @ (render_attrs as @ rest))"
    by (simp add: render_attrs_def)
  also have "\<dots> = render_attrs (st a) @ replace_all r f (render_attrs as @ rest)"
    using assms(1) Cons.prems by simp
  finally show ?case using Cons by (simp add: render_attrs_def)
qed

lemma anchored_open:
  assumes ch: "\<And>a rest. wf_attr a \<Longrightarrow>
             replace_all (Seq (Cls is_space) r') f (render_attr a @ rest) =
             render_attrs (st a) @ replace_all (Seq (Cls is_space) r') f rest"
    and t: "list_all name_char t" and as: "list_all wf_attr as"
  shows "replace_all (Seq (Cls is_space) r') f (''<'' @ t @ render_attrs as @ ''>'' @ x) =
         ''<'' @ t @ render_attrs (concat (map st as)) @ ''>'' @
         replace_all (Seq (Cls is_space) r') f x"
proof -
  let ?r = "Seq (Cls is_space) r'"
  have ns: "\<forall>c \<in> set (CHR ''<'' # t). \<not> is_space c" using name_no_space[OF t] by simp
  have "replace_all ?r f ((CHR ''<'' # t) @ (render_attrs as @ ''>'' @ x)) =
        (CHR ''<'' # t) @ replace_all ?r f (render_attrs as @ ''>'' @ x)"
    by (rule plain_pass[OF ns])
  also have "replace_all ?r f (render_attrs as @ ''>'' @ x) =
        render_attrs (concat (map st as)) @ replace_all ?r f (''>'' @ x)"
    by (rule stage_attrs[OF ch as])
  also have "replace_all ?r f (''>'' @ x) = ''>'' @ replace_all ?r f x"
    using plain_pass[of "''>''" r' f x] by simp
  finally show ?thesis by simp
qed

subsection \<open>Stage 2: the id attribute\<close>

lemma quoted_miss: "c \<noteq> dq \<Longrightarrow> rx_match rx_quoted (c # s) = []"
  by (rule rx_quoted_miss)

lemma name_eq_no_dq: "list_all name_char n \<Longrightarrow> dq \<notin> set (n @ ''='')"
  by (auto simp: list_all_iff name_char_def)

lemma id_chunk:
  assumes "wf_attr a"
  shows "replace_all rx_id_attr (\<lambda>m caps. '' id='' @ [dq, dq]) (render_attr a @ rest) =
         render_attrs (st_id a) @ replace_all rx_id_attr (\<lambda>m caps. '' id='' @ [dq, dq]) rest"
proof -
  let ?r' = "Seq (Lit ''id='') rx_quoted"
  have l: "dq \<notin> set ''id=''" by (simp add: dq_def)
  have qb: "quote_bound ?r'"
    by (rule quote_bound_lit[OF l]) (simp_all add: rx_quoted_miss)
  have n: "dq \<notin> set (fst a @ ''='')" using assms name_eq_no_dq by (simp add: wf_attr_def)
  have hm: "rx_match ?r' ((fst a @ ''='') @ dq # v @ dq # rest) =
            (if fst a = ''id'' then [([], rest)] else [])" if "dq \<notin> set v" for v rest
    using lit_then_quoted[OF l n, of rx_quoted "v @ dq # rest"] rx_quoted_hit[OF that]
    by (simp add: rx_quoted_miss)
  show ?thesis
    unfolding rx_id_attr_def
    using anchored_chunk[OF qb hm assms, where f = "\<lambda>m caps. '' id='' @ [dq, dq]" and rest = rest]
    by (simp add: st_id_def render_attrs_def render_attr_def)
qed

lemma class_chunk:
  assumes "wf_attr a"
  shows "replace_all rx_class_attr clean_classes (render_attr a @ rest) =
         render_attrs (st_class a) @ replace_all rx_class_attr clean_classes rest"
proof -
  let ?r' = "Seq (Lit ''class='') rx_quoted_grp"
  have l: "dq \<notin> set ''class=''" by (simp add: dq_def)
  have qb: "quote_bound ?r'"
    by (rule quote_bound_lit[OF l]) (simp_all add: rx_quoted_grp_miss)
  have n: "dq \<notin> set (fst a @ ''='')" using assms name_eq_no_dq by (simp add: wf_attr_def)
  have hm: "rx_match ?r' ((fst a @ ''='') @ dq # v @ dq # rest) =
            (if fst a = ''class'' then [([v], rest)] else [])" if "dq \<notin> set v" for v rest
    using lit_then_quoted[OF l n, of rx_quoted_grp "v @ dq # rest"] rx_quoted_grp_hit[OF that]
    by (simp add: rx_quoted_grp_miss)
  show ?thesis
    unfolding rx_class_attr_def
    using anchored_chunk[OF qb hm assms, where f = clean_classes and rest = rest]
    by (simp add: st_class_def render_attrs_def render_attr_def clean_classes_def Let_def)
qed

lemma az_dash_plain: "is_az_dash c \<Longrightarrow> c \<noteq> dq \<and> c \<noteq> CHR ''=''"
  using lower_az_plain by (auto simp: is_az_dash_def dq_def)

lemma dropWhile_stop: "\<not> p c \<Longrightarrow> dropWhile p (a @ c # b) = dropWhile p a @ c # b"
  by (induction a) auto

lemma dropWhile_az_eq:
  "dropWhile is_az_dash y = ''='' \<longleftrightarrow> (\<exists>k. y = k @ ''='' \<and> list_all is_az_dash k)"
proof
  assume d: "dropWhile is_az_dash y = ''=''"
  have "y = takeWhile is_az_dash y @ dropWhile is_az_dash y" by simp
  then have "y = takeWhile is_az_dash y @ ''=''" using d by simp
  moreover have "list_all is_az_dash (takeWhile is_az_dash y)"
    by (simp add: list_all_iff) (meson set_takeWhileD)
  ultimately show "\<exists>k. y = k @ ''='' \<and> list_all is_az_dash k" by blast
next
  assume "\<exists>k. y = k @ ''='' \<and> list_all is_az_dash k"
  then obtain k where y: "y = k @ ''=''" and k: "list_all is_az_dash k" by blast
  have "\<not> is_az_dash (CHR ''='')" using az_dash_plain by blast
  then show "dropWhile is_az_dash y = ''=''"
    using k unfolding y by (induction k) auto
qed

lemma data_tail:
  assumes "dq \<notin> set y"
  shows "rx_match rx_data_tail (y @ dq # rest) =
         (if data_text y
          then rx_match rx_quoted (dq # rest) else [])"
proof (cases "startsWith y ''data-''")
  case False
  then have "\<not> startsWith (y @ dq # rest) ''data-''"
    using startsWith_append_stop[of dq "''data-''" y rest] by (simp add: dq_def)
  moreover have "\<not> data_text y"
    using False by (auto simp: startsWith_iff data_text_def)
  ultimately show ?thesis
    unfolding rx_data_tail_def by (simp only: seq_lit) simp
next
  case True
  then obtain y1 where y: "y = ''data-'' @ y1" by (auto simp: startsWith_iff)
  have d1: "dq \<notin> set y1" using assms y by simp
  have sw: "startsWith (y @ dq # rest) ''data-''" using y by (simp add: startsWith_iff)
  have dr: "drop (length ''data-'') (y @ dq # rest) = y1 @ dq # rest" using y by simp
  let ?b = "Seq (Lit ''='') rx_quoted"
  have fb: "fails_on ?b is_az_dash"
    by (rule fails_on_Seq, rule fails_on_Lit) (use az_dash_plain in blast)
  have m: "rx_match rx_data_tail (y @ dq # rest) =
           (case y1 @ dq # rest of [] \<Rightarrow> []
            | c # u \<Rightarrow> if is_az_dash c then rx_match ?b (dropWhile is_az_dash u) else [])"
    unfolding rx_data_tail_def by (simp only: seq_lit sw dr if_True rx_match_plus_seq[OF fb])
  have nd: "\<not> is_az_dash dq" using az_dash_plain by blast
  show ?thesis
  proof (cases y1)
    case Nil
    then have "\<not> data_text y" using y by (simp add: data_text_def)
    then show ?thesis using m nd Nil by simp
  next
    case (Cons c y2)
    show ?thesis
    proof (cases "is_az_dash c")
      case False
      have "\<not> data_text y"
      proof
        assume "data_text y"
        then obtain k where "y1 = k @ ''=''" "k \<noteq> []" "list_all is_az_dash k"
          using y by (auto simp: data_text_def)
        then have "is_az_dash c" using Cons by (cases k) auto
        then show False using False by simp
      qed
      then show ?thesis using m Cons False by simp
    next
      case True
      have d2: "dq \<notin> set (dropWhile is_az_dash y2)"
        using d1 Cons by (meson list.set_intros(2) set_dropWhileD)
      have "rx_match rx_data_tail (y @ dq # rest) =
            rx_match ?b (dropWhile is_az_dash y2 @ dq # rest)"
        using m Cons True dropWhile_stop[of is_az_dash dq y2 rest] nd by simp
      also have "\<dots> = (if dropWhile is_az_dash y2 = ''='' then rx_match rx_quoted (dq # rest) else [])"
        by (rule lit_then_quoted[OF _ d2]) (simp_all add: dq_def rx_quoted_miss)
      finally have r: "rx_match rx_data_tail (y @ dq # rest) =
            (if dropWhile is_az_dash y2 = ''='' then rx_match rx_quoted (dq # rest) else [])" .
      have "data_text y \<longleftrightarrow>
            dropWhile is_az_dash y2 = ''=''"
      proof
        assume "data_text y"
        then obtain k where k: "y1 = k @ ''=''" "k \<noteq> []" "list_all is_az_dash k"
          using y by (auto simp: data_text_def)
        then obtain k' where "k = c # k'" using Cons by (cases k) auto
        then have "y2 = k' @ ''=''" "list_all is_az_dash k'" using k Cons by auto
        then show "dropWhile is_az_dash y2 = ''=''" using dropWhile_az_eq by blast
      next
        assume "dropWhile is_az_dash y2 = ''=''"
        then obtain k' where "y2 = k' @ ''=''" "list_all is_az_dash k'"
          using dropWhile_az_eq by blast
        then have "y = ''data-'' @ (c # k') @ ''=''" "list_all is_az_dash (c # k')"
          using y Cons True by auto
        moreover have "c # k' \<noteq> []" by simp
        ultimately show "data_text y" unfolding data_text_def by blast
      qed
      then show ?thesis using r by simp
    qed
  qed
qed

lemma quote_bound_data: "quote_bound rx_data_tail"
  unfolding quote_bound_def
proof (intro allI impI)
  fix y rest assume d: "dq \<notin> set y" and l: "y = [] \<or> last y \<noteq> CHR ''=''"
  have "\<not> data_text y"
    using l by (auto simp: data_text_def)
  then show "rx_match rx_data_tail (y @ dq # rest) = []" using data_tail[OF d] by simp
qed

lemma data_chunk:
  assumes "wf_attr a"
  shows "replace_all rx_data_attr (\<lambda>m caps. []) (render_attr a @ rest) =
         render_attrs (st_data a) @ replace_all rx_data_attr (\<lambda>m caps. []) rest"
proof -
  have n: "dq \<notin> set (fst a @ ''='')" using assms name_eq_no_dq by (simp add: wf_attr_def)
  have e: "data_text (fst a @ ''='') = is_data_name (fst a)"
    by (auto simp: is_data_name_def data_text_def)
  have hm: "rx_match rx_data_tail ((fst a @ ''='') @ dq # v @ dq # rest) =
            (if is_data_name (fst a) then [([], rest)] else [])" if "dq \<notin> set v" for v rest
    using data_tail[OF n, of "v @ dq # rest"] rx_quoted_hit[OF that] by (simp only: e)
  have r: "rx_data_attr = Seq (Cls is_space) rx_data_tail"
    by (simp add: rx_data_attr_def rx_data_tail_def)
  show ?thesis
    unfolding r
    using anchored_chunk[OF quote_bound_data hm assms, where f = "\<lambda>m caps. []" and rest = rest]
    by (simp add: st_data_def render_attrs_def)
qed

lemma aria_quote_bound: "quote_bound rx_aria_controls"
  unfolding rx_aria_controls_def
  by (rule quote_bound_lit) (simp_all add: dq_def rx_quoted_miss)

lemma aria_name:
  assumes "dq \<notin> set y" "CHR ''='' \<notin> set y" "wf_value v"
  shows "replace_all rx_aria_controls (\<lambda>m caps. ''aria-controls='' @ [dq, dq])
           (y @ ''='' @ dq # v @ dq # rest) =
         y @ ''='' @ dq # (if suffix ''aria-controls'' y then [] else v) @ dq #
         replace_all rx_aria_controls (\<lambda>m caps. ''aria-controls='' @ [dq, dq]) rest"
  using assms(1,2)
proof (induction y)
  case Nil
  let ?f = "\<lambda>(m::string) (caps::string list). ''aria-controls='' @ [dq, dq]"
  have 1: "match_here rx_aria_controls (CHR ''='' # dq # v @ dq # rest) = None"
    by (simp add: rx_aria_controls_def match_here_def)
  have 2: "match_here rx_aria_controls (dq # v @ dq # rest) = None"
    by (simp add: rx_aria_controls_def match_here_def dq_def)
  have "replace_all rx_aria_controls ?f (''='' @ dq # v @ dq # rest) =
        CHR ''='' # dq # replace_all rx_aria_controls ?f (v @ dq # rest)"
    using 1 2 by (simp add: replace_all_skip)
  then show ?case by (simp add: value_pass[OF aria_quote_bound assms(3)])
next
  case (Cons c y)
  let ?f = "\<lambda>(m::string) (caps::string list). ''aria-controls='' @ [dq, dq]"
  let ?s = "(c # y) @ ''='' @ dq # v @ dq # rest"
  have d: "dq \<notin> set ((c # y) @ ''='')" using Cons.prems by simp
  have dv: "dq \<notin> set v" using assms(3) by (simp add: wf_value_def)
  have m: "rx_match rx_aria_controls ?s =
           (if c # y = ''aria-controls'' then [([], rest)] else [])"
    using lit_then_quoted[OF _ d, of "''aria-controls=''" rx_quoted "v @ dq # rest"]
      rx_quoted_hit[OF dv, of rest]
    by (simp add: rx_aria_controls_def rx_quoted_miss dq_def)
  show ?case
  proof (cases "c # y = ''aria-controls''")
    case True
    have "match_here rx_aria_controls ?s = Some (take (length ?s - length rest) ?s, [], rest)"
      using m True by (simp add: match_here_def)
    moreover have "length rest < length ?s" by simp
    ultimately have "replace_all rx_aria_controls ?f ?s = ?f [] [] @ replace_all rx_aria_controls ?f rest"
      using replace_all_hit[of rx_aria_controls ?s _ "[]" rest ?f] by simp
    then show ?thesis using True by simp
  next
    case False
    then have "match_here rx_aria_controls ?s = None" using m by (simp add: match_here_None)
    then have "replace_all rx_aria_controls ?f ?s =
        c # replace_all rx_aria_controls ?f (y @ ''='' @ dq # v @ dq # rest)"
      by (simp add: replace_all_skip)
    moreover have "suffix ''aria-controls'' (c # y) = suffix ''aria-controls'' y"
      using False by (auto simp: suffix_Cons)
    ultimately show ?thesis using Cons by simp
  qed
qed

lemma aria_chunk:
  assumes "wf_attr a"
  shows "replace_all rx_aria_controls (\<lambda>m caps. ''aria-controls='' @ [dq, dq]) (render_attr a @ rest) =
         render_attrs (st_aria a) @
         replace_all rx_aria_controls (\<lambda>m caps. ''aria-controls='' @ [dq, dq]) rest"
proof -
  have 1: "dq \<notin> set (CHR '' '' # fst a)" "CHR ''='' \<notin> set (CHR '' '' # fst a)"
    using assms by (auto simp: wf_attr_def list_all_iff name_char_def)
  have v: "wf_value (snd a)" using assms by (simp add: wf_attr_def)
  have s: "suffix ''aria-controls'' (CHR '' '' # fst a) = suffix ''aria-controls'' (fst a)"
    by (auto simp: suffix_Cons)
  show ?thesis
    using aria_name[OF 1 v, of rest]
    by (simp add: render_attr_def st_aria_def render_attrs_def s)
qed

lemma aria_open:
  assumes t: "list_all name_char t" and as: "list_all wf_attr as"
  shows "replace_all rx_aria_controls (\<lambda>m caps. ''aria-controls='' @ [dq, dq])
           (''<'' @ t @ render_attrs as @ ''>'' @ x) =
         ''<'' @ t @ render_attrs (concat (map st_aria as)) @ ''>'' @
         replace_all rx_aria_controls (\<lambda>m caps. ''aria-controls='' @ [dq, dq]) x"
proof -
  let ?f = "\<lambda>(m::string) (caps::string list). ''aria-controls='' @ [dq, dq]"
  let ?R = "render_attrs as @ ''>'' @ x"
  obtain c0 R' where R: "?R = c0 # R'" and c0: "c0 = CHR '' '' \<or> c0 = CHR ''>''"
    by (cases as) (auto simp: render_attrs_def render_attr_def)
  have ne: "CHR ''='' \<notin> set (CHR ''<'' # t)"
    using t by (auto simp: list_all_iff name_char_def)
  have "replace_all rx_aria_controls ?f ((CHR ''<'' # t) @ ?R) =
        (CHR ''<'' # t) @ replace_all rx_aria_controls ?f ?R"
  proof (rule replace_all_pass)
    fix ys zs assume z: "CHR ''<'' # t = ys @ zs" "zs \<noteq> []"
    have "c0 \<notin> set ''aria-controls=''" using c0 by auto
    then have "startsWith (zs @ c0 # R') ''aria-controls='' = startsWith zs ''aria-controls=''"
      by (rule startsWith_append_stop)
    moreover have "\<not> startsWith zs ''aria-controls=''"
    proof
      assume "startsWith zs ''aria-controls=''"
      then obtain u where "zs = ''aria-controls='' @ u" by (auto simp: startsWith_iff)
      then have "CHR ''='' \<in> set zs" by simp
      then have "CHR ''='' \<in> set (CHR ''<'' # t)" using z(1) by (metis Un_iff set_append)
      then show False using ne by simp
    qed
    ultimately have "rx_match rx_aria_controls (zs @ ?R) = []"
      unfolding R rx_aria_controls_def by (simp only: seq_lit if_False)
    then show "match_here rx_aria_controls (zs @ ?R) = None" by (rule match_here_None)
  qed
  also have "replace_all rx_aria_controls ?f ?R =
        render_attrs (concat (map st_aria as)) @ replace_all rx_aria_controls ?f (''>'' @ x)"
    by (rule stage_attrs[OF aria_chunk as])
  also have "replace_all rx_aria_controls ?f (''>'' @ x) = ''>'' @ replace_all rx_aria_controls ?f x"
  proof -
    have "match_here rx_aria_controls (CHR ''>'' # x) = None"
      by (simp add: rx_aria_controls_def match_here_def)
    then show ?thesis by (simp add: replace_all_skip)
  qed
  finally show ?thesis by simp
qed

subsection \<open>The generated-token test\<close>

lemma test_Nil: "test r [] = (rx_match r [] \<noteq> [])"
  by (auto simp: test_def match_here_def split: list.splits)

lemma test_Cons: "test r (c # s) = (rx_match r (c # s) \<noteq> [] \<or> test r s)"
  by (auto simp: test_def match_here_def split: list.splits)

lemma starts_run_0 [simp]: "starts_run p 0 u"
  by (simp add: starts_run_def)

lemma starts_run_Suc: "starts_run p (Suc k) u = (case u of [] \<Rightarrow> False | c # t \<Rightarrow> p c \<and> starts_run p k t)"
  by (cases u) (auto simp: starts_run_def)

lemma cls_seq_match:
  "(rx_match (Seq (Cls p) r) u \<noteq> []) = (case u of [] \<Rightarrow> False | c # t \<Rightarrow> p c \<and> rx_match r t \<noteq> [])"
  by (cases u) (auto simp: case_prod_beta)

lemma plus_match: "(rx_match (Plus p) u \<noteq> []) = starts_run p (Suc 0) u"
  by (cases u) (auto simp: starts_run_Suc star_ends_nonempty)

lemma generated_match:
  "(rx_match rx_generated u \<noteq> []) = (starts_run is_digit 3 u \<or> starts_run is_hex_lower 6 u)"
proof -
  have 3: "(3::nat) = Suc (Suc (Suc 0))" and 6: "(6::nat) = Suc (Suc (Suc (Suc (Suc (Suc 0)))))"
    by simp_all
  have d: "(rx_match (Seq (Cls is_digit) (Seq (Cls is_digit) (Plus is_digit))) u \<noteq> []) =
           starts_run is_digit 3 u"
    unfolding 3 by (simp only: cls_seq_match plus_match starts_run_Suc split: list.splits)
  have h: "(rx_match (Seq (Cls is_hex_lower) (Seq (Cls is_hex_lower) (Seq (Cls is_hex_lower)
             (Seq (Cls is_hex_lower) (Seq (Cls is_hex_lower) (Plus is_hex_lower)))))) u \<noteq> []) =
           starts_run is_hex_lower 6 u"
    unfolding 6 by (simp only: cls_seq_match plus_match starts_run_Suc split: list.splits)
  show ?thesis
    unfolding rx_generated_def using d h by (simp del: rx_match.simps(2,4,5))
qed

lemma test_generated: "test rx_generated token = looks_generated token"
proof -
  have "test rx_generated t = (has_run is_digit 3 t \<or> has_run is_hex_lower 6 t)" for t
  proof (induction t)
    case Nil
    then show ?case by (simp add: test_Nil generated_match starts_run_def)
  next
    case (Cons c t)
    then show ?case
      by (simp only: test_Cons generated_match has_run.simps starts_run_def) blast
  qed
  then show ?thesis by (simp add: looks_generated_def)
qed

lemma wf_st_aria: "wf_attr a \<Longrightarrow> list_all wf_attr (st_aria a)"
  by (simp add: st_aria_def wf_attr_def wf_value_def)

lemma wf_st_id: "wf_attr a \<Longrightarrow> list_all wf_attr (st_id a)"
  by (simp add: st_id_def wf_attr_def wf_value_def name_char_def is_space_def dq_def)

lemma wf_st_data: "wf_attr a \<Longrightarrow> list_all wf_attr (st_data a)"
  by (simp add: st_data_def)

lemma wf_concat_map:
  "(\<And>a. wf_attr a \<Longrightarrow> list_all wf_attr (st a)) \<Longrightarrow> list_all wf_attr as \<Longrightarrow>
   list_all wf_attr (concat (map st as))"
  by (induction as) auto

lemma concat_map_concat: "concat (map f (concat xss)) = concat (map (\<lambda>xs. concat (map f xs)) xss)"
  by (induction xss) auto

lemma norm_attrs_eq:
  "concat (map st_class (concat (map st_data (concat (map st_id (concat (map st_aria (map s0 as))))))))
   = concat (map norm_attr as)"
  by (induction as) (simp_all add: norm_attr_def)

lemma not_data_id: "\<not> is_data_name ''id''" and not_data_class: "\<not> is_data_name ''class''"
  by (auto simp: is_data_name_def)

lemma norm_attr_rel:
  assumes "attr_rel a1 a2"
  shows "norm_attr a1 = norm_attr a2"
proof -
  have n: "fst a1 = fst a2" using assms by (simp add: attr_rel_def)
  consider "snd a1 = snd a2" | "toLowerCase (fst a1) = ''id''"
    | "toLowerCase (fst a1) = ''class''" "kept_tokens (snd a1) = kept_tokens (snd a2)"
    using assms by (auto simp: attr_rel_def)
  then show ?thesis
  proof cases
    case 1
    then have "a1 = a2" using n by (simp add: prod_eq_iff)
    then show ?thesis by simp
  next
    case 2
    have "\<not> suffix ''aria-controls'' ''id''" by (simp add: suffix_def)
    then show ?thesis
      using 2 n by (simp add: norm_attr_def s0_def st_aria_def st_id_def st_data_def st_class_def
          not_data_id)
  next
    case 3
    have s: "\<not> suffix ''aria-controls'' ''class''" by (simp add: suffix_def)
    have k: "filter (\<lambda>c. \<not> test rx_generated c) (split (toLowerCase (collapse v)) '' '') = kept_tokens v"
      for v by (simp add: kept_tokens_def norm_value_def replace_spaces test_generated)
    show ?thesis
      using 3 n s
      by (simp add: norm_attr_def s0_def st_aria_def st_id_def st_data_def st_class_def
          not_data_class k)
  qed
qed

lemma norm_attrs_rel:
  "list_all2 attr_rel as1 as2 \<Longrightarrow> concat (map norm_attr as1) = concat (map norm_attr as2)"
  by (induction rule: list_all2_induct) (simp_all add: norm_attr_rel)

lemma id_open:
  assumes "list_all name_char t" "list_all wf_attr as"
  shows "replace_all rx_id_attr (\<lambda>m caps. '' id='' @ [dq, dq]) (''<'' @ t @ render_attrs as @ ''>'' @ x) =
         ''<'' @ t @ render_attrs (concat (map st_id as)) @ ''>'' @
         replace_all rx_id_attr (\<lambda>m caps. '' id='' @ [dq, dq]) x"
  unfolding rx_id_attr_def
  by (rule anchored_open[OF id_chunk[unfolded rx_id_attr_def] assms])

lemma data_open:
  assumes "list_all name_char t" "list_all wf_attr as"
  shows "replace_all rx_data_attr (\<lambda>m caps. []) (''<'' @ t @ render_attrs as @ ''>'' @ x) =
         ''<'' @ t @ render_attrs (concat (map st_data as)) @ ''>'' @
         replace_all rx_data_attr (\<lambda>m caps. []) x"
  unfolding rx_data_attr_def
  by (rule anchored_open[OF data_chunk[unfolded rx_data_attr_def] assms])

lemma class_open:
  assumes "list_all name_char t" "list_all wf_attr as"
  shows "replace_all rx_class_attr clean_classes (''<'' @ t @ render_attrs as @ ''>'' @ x) =
         ''<'' @ t @ render_attrs (concat (map st_class as)) @ ''>'' @
         replace_all rx_class_attr clean_classes x"
  unfolding rx_class_attr_def
  by (rule anchored_open[OF class_chunk[unfolded rx_class_attr_def] assms])

lemma normal_form:
  assumes "wf_element e"
  shows "normalizeHtml (render e) = ''<'' @ open_tag e @ inner_norm (el_inner e)"
proof -
  let ?t = "toLowerCase (el_tag e)"
  let ?a0 = "map s0 (el_attrs e)"
  let ?a1 = "concat (map st_aria ?a0)"
  let ?a2 = "concat (map st_id ?a1)"
  let ?a3 = "concat (map st_data ?a2)"
  have t: "list_all name_char ?t" using assms by (simp add: wf_element_def lower_name)
  have w0: "list_all wf_attr ?a0"
    using assms by (simp add: wf_element_def list_all_iff wf_attr_s0)
  have w1: "list_all wf_attr ?a1" by (rule wf_concat_map[OF wf_st_aria w0])
  have w2: "list_all wf_attr ?a2" by (rule wf_concat_map[OF wf_st_id w1])
  have w3: "list_all wf_attr ?a3" by (rule wf_concat_map[OF wf_st_data w2])
  have "normalizeHtml (render e) =
        replace_all rx_class_attr clean_classes
          (replace_all rx_data_attr (\<lambda>m caps. [])
            (replace_all rx_id_attr (\<lambda>m caps. '' id='' @ [dq, dq])
              (replace_all rx_aria_controls (\<lambda>m caps. ''aria-controls='' @ [dq, dq])
                (norm0 (render e)))))"
    by (simp add: normalizeHtml_def norm0_def Let_def)
  also have "\<dots> = ''<'' @ ?t @ render_attrs (concat (map st_class ?a3)) @ ''>'' @ inner_norm (el_inner e)"
    unfolding stage0[OF assms] aria_open[OF t w0] id_open[OF t w1] data_open[OF t w2]
      class_open[OF t w3] inner_norm_def ..
  finally show ?thesis unfolding open_tag_def norm_attrs_eq[symmetric] by simp
qed

lemma same_shape_open_tag: "same_shape e1 e2 \<Longrightarrow> open_tag e1 = open_tag e2"
  using norm_attrs_rel[of "el_attrs e1" "el_attrs e2"] by (simp add: same_shape_def open_tag_def)

subsection \<open>The opening-tag pattern\<close>

lemma gt_not_word: "\<not> is_word CHR ''>''"
  by code_simp

lemma take_prefix_while: "take (Suc (length u) - length (dropWhile p u)) (c # u) = c # takeWhile p u"
proof -
  have "length u = length (takeWhile p u) + length (dropWhile p u)"
    by (metis length_append takeWhile_dropWhile_id)
  then have "Suc (length u) - length (dropWhile p u) = Suc (length (takeWhile p u))" by simp
  then show ?thesis by (simp add: takeWhile_eq_take[symmetric])
qed

lemma open_tag_match:
  assumes w: "is_word c" and g: "CHR ''>'' \<in> set u"
  shows "\<exists>m rest. match_here rx_open_tag (CHR ''<'' # c # u) =
           Some (m, [c # takeWhile is_word u, takeWhile not_gt (dropWhile is_word u)], rest)"
proof -
  let ?B = "Seq (Grp (Star not_gt)) (Lit ''>'')"
  let ?r = "dropWhile is_word u"
  let ?F = "\<lambda>(ca, ra). map (\<lambda>(cb, rb). (ca @ cb, rb)) (rx_match ?B ra)"
  have gr: "CHR ''>'' \<in> set ?r"
    using g gt_not_word by (metis takeWhile_dropWhile_id set_append Un_iff set_takeWhileD)
  then have ne: "dropWhile not_gt ?r \<noteq> []" by (auto simp: dropWhile_eq_Nil_conv not_gt_def)
  then have "\<not> not_gt (hd (dropWhile not_gt ?r))" by (rule hd_dropWhile)
  then obtain r' where r': "dropWhile not_gt ?r = CHR ''>'' # r'"
    using ne by (cases "dropWhile not_gt ?r") (auto simp: not_gt_def)
  have fo: "fails_on (Lit ''>'') not_gt" by (rule fails_on_Lit) (simp add: not_gt_def)
  have B: "rx_match ?B ?r = [([takeWhile not_gt ?r], r')]"
    unfolding rx_match_grp_star_seq[OF fo] r' by simp
  obtain others where se: "star_ends is_word u = ?r # others"
    using star_ends_nonempty[of is_word u] hd_star_ends[of is_word u]
    by (cases "star_ends is_word u") auto
  have A: "rx_match (Grp (Plus is_word)) (c # u) =
           ([c # takeWhile is_word u], ?r) #
           map (\<lambda>(ca, ra). (take (length (c # u) - length ra) (c # u) # ca, ra)) (map (Pair []) others)"
    using w by (simp add: se take_prefix_while del: take_Cons')
  have "rx_match (Seq (Grp (Plus is_word)) ?B) (c # u) =
        concat (map ?F (rx_match (Grp (Plus is_word)) (c # u)))"
    by simp
  also have "\<dots> = ([c # takeWhile is_word u, takeWhile not_gt ?r], r') #
                  concat (map ?F (map (\<lambda>(ca, ra). (take (length (c # u) - length ra) (c # u) # ca, ra))
                     (map (Pair []) others)))"
    unfolding A by (simp add: B del: rx_match.simps)
  finally have "\<exists>tl. rx_match rx_open_tag (CHR ''<'' # c # u) =
                  ([c # takeWhile is_word u, takeWhile not_gt ?r], r') # tl"
    unfolding rx_open_tag_def seq_lit by (simp del: rx_match.simps)
  then show ?thesis by (auto simp: match_here_def)
qed

lemma open_tag_caps:
  assumes "wf_element e"
  shows "\<exists>m rest. match_here rx_open_tag (''<'' @ open_tag e @ x) =
           Some (m, [tag_name (open_tag e), tag_attributes (open_tag e)], rest)"
proof -
  obtain c t where ct: "el_tag e = c # t" and w: "is_word c"
    using assms by (cases "el_tag e") (auto simp: wf_element_def)
  let ?U = "toLowerCase t @ render_attrs (concat (map norm_attr (el_attrs e))) @ ''>''"
  have ot: "open_tag e = toLowerChar c # ?U" by (simp add: open_tag_def ct toLowerCase_def)
  have lw: "is_word (toLowerChar c)" using w by (rule lower_word)
  have g: "CHR ''>'' \<in> set ?U" by simp
  have 1: "takeWhile is_word (?U @ x) = takeWhile is_word ?U"
    by (rule takeWhile_append1[of "CHR ''>''" ?U is_word x, OF g gt_not_word])
  have 2: "dropWhile is_word (?U @ x) = dropWhile is_word ?U @ x"
    by (rule dropWhile_append1[of "CHR ''>''" ?U is_word x, OF g gt_not_word])
  have gr: "CHR ''>'' \<in> set (dropWhile is_word ?U)"
    using g gt_not_word by (metis takeWhile_dropWhile_id set_append Un_iff set_takeWhileD)
  have 3: "takeWhile not_gt (dropWhile is_word ?U @ x) = takeWhile not_gt (dropWhile is_word ?U)"
    by (rule takeWhile_append1[of "CHR ''>''" "dropWhile is_word ?U" not_gt x, OF gr]) (simp add: not_gt_def)
  have gx: "CHR ''>'' \<in> set (?U @ x)" by simp
  from open_tag_match[OF lw gx] obtain m rest where
    mh: "match_here rx_open_tag (CHR ''<'' # toLowerChar c # (?U @ x)) =
           Some (m, [toLowerChar c # takeWhile is_word (?U @ x),
                     takeWhile not_gt (dropWhile is_word (?U @ x))], rest)"
    by blast
  have e: "''<'' @ open_tag e @ x = CHR ''<'' # toLowerChar c # (?U @ x)"
    unfolding ot by simp
  have n: "tag_name (open_tag e) = toLowerChar c # takeWhile is_word ?U"
    by (simp only: ot tag_name_def takeWhile.simps lw if_True)
  have a: "tag_attributes (open_tag e) = takeWhile not_gt (dropWhile is_word ?U)"
    by (simp only: ot tag_attributes_def dropWhile.simps lw if_True)
  show ?thesis
    unfolding e n a using mh unfolding 1 2 3 by blast
qed

lemma signature_of_element:
  assumes "wf_element e" "html v = render e"
  shows "createViolationSignature md5 v =
         md5 (json_object
           [(''ruleId'', ruleId v),
            (''tagName'', tag_name (open_tag e)),
            (''semanticAttributes'',
               join (sort (match_all rx_semantic (tag_attributes (open_tag e)))) '' ''),
            (''selectorPattern'', selectorPattern (cssSelector (dom_context v))),
            (''impact'', impact_or_unknown v)])"
proof -
  obtain m rest where
    "match_here rx_open_tag (normalizeHtml (html v)) =
       Some (m, [tag_name (open_tag e), tag_attributes (open_tag e)], rest)"
    using open_tag_caps[OF assms(1), of "inner_norm (el_inner e)"]
    unfolding assms(2) normal_form[OF assms(1)] by auto
  then show ?thesis by (simp add: createViolationSignature_def Let_def)
qed

lemma signature_same_shape:
  assumes "wf_element e1" "wf_element e2" "same_shape e1 e2"
    and "html v1 = render e1" "html v2 = render e2"
    and "ruleId v1 = ruleId v2" "impact v1 = impact v2"
    and "selectorPattern (cssSelector (dom_context v1)) = selectorPattern (cssSelector (dom_context v2))"
  shows "createViolationSignature md5 v1 = createViolationSignature md5 v2"
  unfolding signature_of_element[OF assms(1,4)] signature_of_element[OF assms(2,5)]
    same_shape_open_tag[OF assms(3)]
  using assms(6-8) by (simp add: impact_or_unknown_def)

section \<open>Signature stability: where it fails and where it holds\<close>

lemma instance_listed:
  assumes "(u, vs) \<in> set m" "v \<in> set vs"
  shows "(u, v) \<in> set (all_instances m)"
proof -
  have a: "(u, v) \<in> set (map (Pair u) vs)" using assms(2) by simp
  have "(\<lambda>(url, violations). map (Pair url) violations) (u, vs) = map (Pair u) vs" by simp
  then have b: "map (Pair u) vs \<in> set (map (\<lambda>(url, violations). map (Pair url) violations) m)"
    using assms(1) unfolding set_map by (metis imageI)
  show ?thesis unfolding all_instances_def set_concat using a b by (rule UN_I[rotated])
qed

lemma groups_of_keys:
  "groups_of md5 insts groups \<Longrightarrow>
   set (map fst groups) = set (map (\<lambda>inst. createViolationSignature md5 (snd inst)) insts)"
  by (simp add: groups_of_def)

lemma groups_of_distinct: "groups_of md5 insts groups \<Longrightarrow> distinct (map fst groups)"
  by (simp add: groups_of_def)

lemma groups_of_entry:
  assumes "groups_of md5 insts groups" "(k, g) \<in> set groups"
  shows "g_signature g = k \<and> occurrences g = map occurrence_of (instances_with md5 k insts)"
proof -
  have "\<forall>(k, g) \<in> set groups.
          g_signature g = k \<and>
          occurrences g = map occurrence_of (instances_with md5 k insts) \<and>
          totalOccurrences g = int (length (instances_with md5 k insts))"
    by (rule conjunct2[OF conjunct2[OF assms(1)[unfolded groups_of_def]]])
  from bspec[OF this assms(2)] show ?thesis by simp
qed

lemma instance_in_group:
  assumes "(u, vs) \<in> set m" "v \<in> set vs"
  shows "\<exists>g \<in> set (groupViolations md5 m).
           g_signature g = createViolationSignature md5 v \<and>
           occurrence_of (u, v) \<in> set (occurrences g)"
proof -
  let ?insts = "all_instances m" and ?k = "createViolationSignature md5 v"
  let ?groups = "add_all md5 ?insts []"
  have i: "(u, v) \<in> set ?insts" by (rule instance_listed[OF assms])
  have go: "groups_of md5 ?insts ?groups" by (rule groups_of_add_all)
  have "(\<lambda>inst. createViolationSignature md5 (snd inst)) (u, v) \<in>
        (\<lambda>inst. createViolationSignature md5 (snd inst)) ` set ?insts"
    using i by (rule imageI)
  then have "?k \<in> (\<lambda>inst. createViolationSignature md5 (snd inst)) ` set ?insts"
    by (simp only: snd_conv)
  moreover have "fst ` set ?groups = (\<lambda>inst. createViolationSignature md5 (snd inst)) ` set ?insts"
    using groups_of_keys[OF go] by (simp only: set_map)
  ultimately have "?k \<in> fst ` set ?groups" by (rule ssubst[rotated])
  then obtain x where fx: "?k = fst x" and x: "x \<in> set ?groups" by (rule imageE)
  define g where "g = snd x"
  have xe: "x = (?k, g)" by (simp add: fx g_def)
  have kg: "(?k, g) \<in> set ?groups" using x by (simp only: xe[symmetric])
  have "snd x \<in> snd ` set ?groups" using x by (rule imageI)
  then have g: "g \<in> set (groupViolations md5 m)" by (simp only: set_groupViolations g_def)
  have e1: "g_signature g = ?k"
    and e2: "occurrences g = map occurrence_of (instances_with md5 ?k ?insts)"
    using groups_of_entry[OF go kg] by simp_all
  have "(u, v) \<in> set (instances_with md5 ?k ?insts)"
    using i by (simp add: instances_with_def)
  then have "occurrence_of (u, v) \<in> occurrence_of ` set (instances_with md5 ?k ?insts)"
    by (rule imageI)
  then have "occurrence_of (u, v) \<in> set (occurrences g)" by (simp only: e2 set_map)
  with g e1 show ?thesis by (intro bexI[of _ g] conjI)
qed

lemma group_unique:
  assumes "g \<in> set (groupViolations md5 m)" "g' \<in> set (groupViolations md5 m)"
    and "g_signature g = g_signature g'"
  shows "g = g'"
proof -
  let ?groups = "add_all md5 (all_instances m) []"
  have "g \<in> snd ` set ?groups" using assms(1) by (simp only: set_groupViolations)
  then obtain x where gx: "g = snd x" and x: "x \<in> set ?groups" by (rule imageE)
  have "g' \<in> snd ` set ?groups" using assms(2) by (simp only: set_groupViolations)
  then obtain x' where gx': "g' = snd x'" and x': "x' \<in> set ?groups" by (rule imageE)
  have kg: "(fst x, g) \<in> set ?groups" by (simp add: gx x)
  have kg': "(fst x', g') \<in> set ?groups" by (simp add: gx' x')
  have go: "groups_of md5 (all_instances m) ?groups" by (rule groups_of_add_all)
  have "g_signature g = fst x" "g_signature g' = fst x'"
    using groups_of_entry[OF go kg] groups_of_entry[OF go kg'] by simp_all
  then have "fst x' = fst x" using assms(3) by simp
  then have "(fst x, g') \<in> set ?groups" using kg' by simp
  then show ?thesis by (rule eq_key_imp_eq_value[OF groups_of_distinct[OF go] kg])
qed

lemma length_sort_by: "length (sort_by cmp xs) = length xs"
  by (metis mset_sort_by size_mset)

lemma length_add_violation:
  "length (add_violation md5 url groups v) =
   length groups + (if map_of groups (createViolationSignature md5 v) = None then 1 else 0)"
  by (simp add: add_violation_def Let_def)

lemma two_signatures_two_groups:
  assumes "createViolationSignature md5 a \<noteq> createViolationSignature md5 b"
  shows "length (groupViolations md5 [(u1, [a]), (u2, [b])]) = 2"
proof -
  let ?g1 = "add_violation md5 u1 [] a"
  have g1: "map fst ?g1 = [createViolationSignature md5 a]"
    by (simp add: add_violation_def Let_def)
  have "createViolationSignature md5 b \<notin> fst ` set ?g1"
    using assms g1 by (metis list.set_map list.simps(15) empty_set singletonD)
  then have n: "map_of ?g1 (createViolationSignature md5 b) = None"
    by (simp add: map_of_eq_None_iff)
  have l1: "length ?g1 = 1" by (simp only: length_add_violation) simp
  have "length (add_violation md5 u2 ?g1 b) = 2"
    by (simp only: length_add_violation n l1) simp
  moreover have "pages_loop md5 [(u1, [a]), (u2, [b])] [] = add_violation md5 u2 ?g1 b"
    by simp
  ultimately show ?thesis
    by (simp only: groupViolations_def length_sort_by length_map)
qed

text \<open>
  C1 fails on the code. Two text fields differ only in the value of their id attribute,
  \<^verbatim>\<open>a>b\<close> and \<^verbatim>\<open>c\<close>, and their title attribute ends in \<^verbatim>\<open> id=\<close>. The pattern that is
  to empty id attributes matches from inside the title value up to the opening quote of
  the id value: it removes the end of the title and leaves the id value in the text,
  outside the quotes. In the first field the id value then ends the opening tag early and
  the attribute \<^verbatim>\<open>type\<close> is lost; in the second it is kept. The two instances, with the
  same rule, impact and selector, get signatures that are the hashes of different data,
  and two groups.
\<close>

theorem id_value_left_in_text:
  "normalizeHtml (html (field_violation ''a>b'')) =
     ''<input title='' @ [dq] @ ''user id='' @ [dq, dq] @ ''a>b'' @ [dq] @
     '' type='' @ [dq] @ ''text'' @ [dq] @ ''>'' \<and>
   normalizeHtml (html (field_violation ''c'')) =
     ''<input title='' @ [dq] @ ''user id='' @ [dq, dq] @ ''c'' @ [dq] @
     '' type='' @ [dq] @ ''text'' @ [dq] @ ''>'' \<and>
   createViolationSignature md5 (field_violation ''a>b'') = md5 (field_signature_data []) \<and>
   createViolationSignature md5 (field_violation ''c'') =
     md5 (field_signature_data (''type='' @ [dq] @ ''text'' @ [dq])) \<and>
   createViolationSignature (\<lambda>s. s) (field_violation ''a>b'') \<noteq>
   createViolationSignature (\<lambda>s. s) (field_violation ''c'') \<and>
   length (groupViolations (\<lambda>s. s)
     [(''http://h/'', [field_violation ''a>b'']), (''http://h/a'', [field_violation ''c''])]) = 2"
proof -
  have 1: "normalizeHtml (html (field_violation ''a>b'')) =
     ''<input title='' @ [dq] @ ''user id='' @ [dq, dq] @ ''a>b'' @ [dq] @
     '' type='' @ [dq] @ ''text'' @ [dq] @ ''>''"
    by code_simp
  have 2: "normalizeHtml (html (field_violation ''c'')) =
     ''<input title='' @ [dq] @ ''user id='' @ [dq, dq] @ ''c'' @ [dq] @
     '' type='' @ [dq] @ ''text'' @ [dq] @ ''>''"
    by code_simp
  have 3: "createViolationSignature md5 (field_violation ''a>b'') = md5 (field_signature_data [])"
    by code_simp
  have 4: "createViolationSignature md5 (field_violation ''c'') =
           md5 (field_signature_data (''type='' @ [dq] @ ''text'' @ [dq]))"
    by code_simp
  have 5: "createViolationSignature (\<lambda>s. s) (field_violation ''a>b'') \<noteq>
           createViolationSignature (\<lambda>s. s) (field_violation ''c'')"
    by code_simp
  show ?thesis
    by (intro conjI) (rule 1, rule 2, rule 3, rule 4, rule 5, rule two_signatures_two_groups[OF 5])
qed

text \<open>The text field is the serialisation of an element that is not well formed.\<close>

lemma field_html_render:
  "field_html ident = render (user_field ident) \<and> \<not> wf_element (user_field ident)"
  by (simp add: field_html_def render_def render_attrs_def render_attr_def user_field_def
      wf_element_def wf_attr_def wf_value_def)

text \<open>
  Where the defect cannot arise. Let two violation instances have as HTML the
  serialisation, in ASCII, of two well-formed elements (names without white space,
  double quote, equals sign or closing angle bracket; values without double quote and not
  ending in an equals sign) with the same tag and the same attributes in the same order,
  up to the values of id attributes and the class tokens that look generated, and with
  any text content. If they have the same ruleId and impact and their selectors normalise
  to the same pattern, then createViolationSignature gives them the same signature, for
  any hash function, and groupViolations records both in one group, the only group with
  that signature. The conditions are sufficient, not necessary.
\<close>

theorem signature_stable:
  assumes "wf_element e1" "wf_element e2" "same_shape e1 e2"
    and "html v1 = render e1" "html v2 = render e2"
    and "ruleId v1 = ruleId v2" "impact v1 = impact v2"
    and "selectorPattern (cssSelector (dom_context v1)) =
         selectorPattern (cssSelector (dom_context v2))"
    and "(u1, vs1) \<in> set m" "v1 \<in> set vs1" "(u2, vs2) \<in> set m" "v2 \<in> set vs2"
    and "list_all is_ascii (html v1)" "list_all is_ascii (html v2)"
  shows "createViolationSignature md5 v1 = createViolationSignature md5 v2 \<and>
         (\<exists>g \<in> set (groupViolations md5 m).
            occurrence_of (u1, v1) \<in> set (occurrences g) \<and>
            occurrence_of (u2, v2) \<in> set (occurrences g) \<and>
            (\<forall>g' \<in> set (groupViolations md5 m). g_signature g' = g_signature g \<longrightarrow> g' = g))"
proof -
  have s: "createViolationSignature md5 v1 = createViolationSignature md5 v2"
    by (rule signature_same_shape[OF assms(1-8)])
  obtain g where g: "g \<in> set (groupViolations md5 m)"
    and k: "g_signature g = createViolationSignature md5 v1"
    and o1: "occurrence_of (u1, v1) \<in> set (occurrences g)"
    using instance_in_group[OF assms(9,10), of md5] by (elim bexE conjE)
  obtain g2 where g2: "g2 \<in> set (groupViolations md5 m)"
    and k2: "g_signature g2 = createViolationSignature md5 v2"
    and o2: "occurrence_of (u2, v2) \<in> set (occurrences g2)"
    using instance_in_group[OF assms(11,12), of md5] by (elim bexE conjE)
  have "g_signature g2 = g_signature g" by (simp only: k k2 s)
  then have "g2 = g" by (rule group_unique[OF g2 g])
  then have o2': "occurrence_of (u2, v2) \<in> set (occurrences g)" using o2 by (simp only:)
  have u: "\<forall>g' \<in> set (groupViolations md5 m). g_signature g' = g_signature g \<longrightarrow> g' = g"
  proof (intro ballI impI)
    fix g' assume "g' \<in> set (groupViolations md5 m)" "g_signature g' = g_signature g"
    then show "g' = g" by (rule group_unique[OF _ g])
  qed
  show ?thesis
    by (intro conjI bexI[of _ g]) (rule s, rule o1, rule o2', rule u, rule g)
qed

theorem signature_stable_witness:
  "list_all is_ascii (html click_button) \<and> list_all is_ascii (html submit_button) \<and>
   wf_element click_element \<and> wf_element submit_element \<and>
   same_shape click_element submit_element \<and>
   html click_button = render click_element \<and> html submit_button = render submit_element \<and>
   html click_button \<noteq> html submit_button \<and>
   createViolationSignature (\<lambda>s. s) click_button = createViolationSignature (\<lambda>s. s) submit_button \<and>
   (\<exists>g. g \<in> set (groupViolations (\<lambda>s. s) example_pages) \<and>
        occurrence_of (''http://h/'', click_button) \<in> set (occurrences g) \<and>
        occurrence_of (''http://h/a'', submit_button) \<in> set (occurrences g))"
proof -
  have a1: "list_all is_ascii (html click_button)" by code_simp
  have a2: "list_all is_ascii (html submit_button)" by code_simp
  have w1: "wf_element click_element" by code_simp
  have w2: "wf_element submit_element" by code_simp
  have ss: "same_shape click_element submit_element" by code_simp
  have r1: "html click_button = render click_element" by code_simp
  have r2: "html submit_button = render submit_element" by code_simp
  have d: "html click_button \<noteq> html submit_button" by code_simp
  have ri: "ruleId click_button = ruleId submit_button" "impact click_button = impact submit_button"
    by (simp_all add: submit_button_def)
  have sp: "selectorPattern (cssSelector (dom_context click_button)) =
            selectorPattern (cssSelector (dom_context submit_button))"
    by code_simp
  have m1: "(''http://h/'', [click_button]) \<in> set example_pages"
    and m2: "(''http://h/a'', [submit_button]) \<in> set example_pages"
    by (simp_all add: example_pages_def)
  have "createViolationSignature (\<lambda>s. s) click_button = createViolationSignature (\<lambda>s. s) submit_button \<and>
        (\<exists>g \<in> set (groupViolations (\<lambda>s. s) example_pages).
           occurrence_of (''http://h/'', click_button) \<in> set (occurrences g) \<and>
           occurrence_of (''http://h/a'', submit_button) \<in> set (occurrences g) \<and>
           (\<forall>g' \<in> set (groupViolations (\<lambda>s. s) example_pages).
              g_signature g' = g_signature g \<longrightarrow> g' = g))"
    by (rule signature_stable[OF w1 w2 ss r1 r2 ri sp m1 _ m2 _ a1 a2]) simp_all
  then show ?thesis using a1 a2 w1 w2 ss r1 r2 d by blast
qed

end
